theory Spec2Isabelle
  imports Main
begin

section \<open>Step model\<close>

text \<open>
  A step is the dictionary the document builder reads for one table row.  The keys
  \<open>ref\<close> and \<open>paragraphs\<close> are read with \<open>step[...]\<close>, and so are the four keys of
  a paragraph: a step has them.  \<open>raci\<close>, \<open>is_gateway\<close>, \<open>sla\<close> and \<open>sla_group\<close> are
  read with \<open>step.get(...)\<close>, so an absent key is \<open>None\<close> (\<open>False\<close> for \<open>is_gateway\<close>).
  The alignment is a string, compared with \<open>'CENTER'\<close> and \<open>'JUSTIFY'\<close>; a RACI role
  may be absent from the dictionary, or be there with the value \<open>None\<close> or a string.
\<close>

record para_data =
  para_text :: string
  alignment :: string
  font_size :: nat
  bold :: bool

record step =
  ref :: string
  paragraphs :: "para_data list"
  raci :: "(string \<rightharpoonup> string option) option"
  is_gateway :: bool
  sla :: "string option"
  sla_group :: "string option"

text \<open>Python truth value of an optional string: \<open>None\<close> and \<open>''\<close> are falsy.\<close>

definition truthy :: "string option \<Rightarrow> bool" where
  "truthy v = (case v of None \<Rightarrow> False | Some s \<Rightarrow> s \<noteq> [])"

section \<open>Merge-range planner\<close>

text \<open>A merge range is the tuple \<open>(merge_start, merge_end, sla_value)\<close>.\<close>

type_synonym merge_range = "nat \<times> nat \<times> string option"

text \<open>
  \<open>while j < len(steps) and steps[j].get('is_gateway', False): merge_end = j; j += 1\<close>,
  returning the loop's final \<open>(merge_end, j)\<close>.
\<close>

function absorb_gateways :: "step list \<Rightarrow> nat \<Rightarrow> nat \<Rightarrow> nat \<times> nat" where
  "absorb_gateways steps merge_end j =
     (if j < length steps \<and> is_gateway (steps ! j)
      then absorb_gateways steps j (j + 1)
      else (merge_end, j))"
  by pat_completeness auto
termination
  by (relation "measure (\<lambda>(steps, merge_end, j). length steps - j)") auto

text \<open>
  \<open>while idx < len(steps) and steps[idx].get('is_gateway', False): idx += 1\<close>
  (the skip loop of the branch without SLA).
\<close>

function skip_gateways :: "step list \<Rightarrow> nat \<Rightarrow> nat" where
  "skip_gateways steps idx =
     (if idx < length steps \<and> is_gateway (steps ! idx)
      then skip_gateways steps (idx + 1)
      else idx)"
  by pat_completeness auto
termination
  by (relation "measure (\<lambda>(steps, idx). length steps - idx)") auto

declare absorb_gateways.simps [simp del] skip_gateways.simps [simp del]

lemma absorb_gateways_snd: "snd (absorb_gateways steps merge_end j) = skip_gateways steps j"
proof (induction steps merge_end j rule: absorb_gateways.induct)
  case (1 steps merge_end j)
  then show ?case
    by (subst absorb_gateways.simps, subst skip_gateways.simps) simp
qed

lemma skip_gateways_ge: "idx \<le> skip_gateways steps idx"
proof (induction steps idx rule: skip_gateways.induct)
  case (1 steps idx)
  then show ?case
    by (subst skip_gateways.simps) auto
qed

lemma skip_gateways_gt: "idx < skip_gateways steps (Suc idx)"
  using skip_gateways_ge [of "Suc idx" steps] by simp

text \<open>
  The group loop: \<open>while j < len(steps) and steps[j].get('sla_group') == sla_group\<close>,
  absorbing the member at \<open>j\<close> and then its gateway cases.
\<close>

function absorb_group :: "step list \<Rightarrow> string option \<Rightarrow> nat \<Rightarrow> nat \<Rightarrow> nat \<times> nat" where
  "absorb_group steps g merge_end j =
     (if j < length steps \<and> sla_group (steps ! j) = g
      then (case absorb_gateways steps j (j + 1) of
              (merge_end', j') \<Rightarrow> absorb_group steps g merge_end' j')
      else (merge_end, j))"
  by pat_completeness auto
termination
  by (relation "measure (\<lambda>(steps, g, merge_end, j). length steps - j)")
     (auto simp: split_beta absorb_gateways_snd intro: diff_less_mono2 skip_gateways_gt)

declare absorb_group.simps [simp del]

lemma absorb_group_snd_ge: "j \<le> snd (absorb_group steps g merge_end j)"
proof (induction steps g merge_end j rule: absorb_group.induct)
  case (1 steps g merge_end j)
  show ?case
  proof (cases "j < length steps \<and> sla_group (steps ! j) = g")
    case True
    obtain me j' where a: "absorb_gateways steps j (j + 1) = (me, j')"
      by (cases "absorb_gateways steps j (j + 1)")
    then have "j < j'"
      using absorb_gateways_snd [of steps j "j + 1"] skip_gateways_gt [of j steps] by simp
    moreover have "j' \<le> snd (absorb_group steps g me j')"
      using 1 [OF True a [symmetric]] .
    ultimately show ?thesis
      using True a by (subst absorb_group.simps) simp
  next
    case False
    then show ?thesis by (subst absorb_group.simps) auto
  qed
qed

lemma absorb_gateways_pair_gt: "(a, b) = absorb_gateways steps m (j + 1) \<Longrightarrow> j < b"
  using absorb_gateways_snd [of steps m "Suc j"] skip_gateways_gt [of j steps]
  by (cases "absorb_gateways steps m (Suc j)") auto

lemma absorb_group_pair_ge: "(a, b) = absorb_group steps g m j \<Longrightarrow> j \<le> b"
  using absorb_group_snd_ge [of j steps g m]
  by (cases "absorb_group steps g m j") auto

text \<open>
  The scan \<open>while idx < len(steps)\<close> from position \<open>idx\<close>; the ranges it appends to
  \<open>sla_merges\<close> from there on, in order.
\<close>

function sla_merges_from :: "step list \<Rightarrow> nat \<Rightarrow> merge_range list" where
  "sla_merges_from steps idx =
     (if idx < length steps then
        (let step_item = steps ! idx;
             sla = sla step_item;
             sla_group = sla_group step_item
         in if truthy sla \<and> \<not> truthy sla_group then
              (case absorb_gateways steps idx (idx + 1) of
                 (merge_end, j) \<Rightarrow> (idx, merge_end, sla) # sla_merges_from steps j)
            else if truthy sla_group then
              (case absorb_gateways steps idx (idx + 1) of
                 (merge_end, j) \<Rightarrow>
                   (case absorb_group steps sla_group merge_end j of
                      (merge_end', j') \<Rightarrow> (idx, merge_end', sla) # sla_merges_from steps j'))
            else sla_merges_from steps (skip_gateways steps (idx + 1)))
      else [])"
  by pat_completeness auto
termination
proof (relation "measure (\<lambda>(steps, idx). length steps - idx)", goal_cases)
  case 1
  show ?case by simp
next
  case (2 steps idx step_item sla sla_group x y)
  from 2(6) have "idx < y" by (rule absorb_gateways_pair_gt)
  with 2(1) show ?case by simp
next
  case 3
  then show ?case
    by (auto dest!: absorb_gateways_pair_gt [unfolded Suc_eq_plus1 [symmetric]] absorb_group_pair_ge)
next
  case (4 steps idx step_item sla sla_group)
  then show ?case
    using skip_gateways_gt [of idx steps] by simp
qed

declare sla_merges_from.simps [simp del]

text \<open>The planner: the scan started at \<open>idx = 0\<close>.\<close>

definition sla_merges :: "step list \<Rightarrow> merge_range list" where
  "sla_merges steps = sla_merges_from steps 0"

section \<open>The inner loops in closed form\<close>

lemma skip_gateways_eq:
  "skip_gateways steps j = j + length (takeWhile is_gateway (drop j steps))"
proof (induction steps j rule: skip_gateways.induct)
  case (1 steps idx)
  show ?case
  proof (cases "idx < length steps")
    case True
    then have d: "drop idx steps = steps ! idx # drop (Suc idx) steps"
      by (simp add: Cons_nth_drop_Suc)
    show ?thesis
      using 1 True by (subst skip_gateways.simps) (simp add: d)
  next
    case False
    then show ?thesis by (subst skip_gateways.simps) simp
  qed
qed

lemma skip_gateways_stop:
  "skip_gateways steps j < length steps \<Longrightarrow> \<not> is_gateway (steps ! skip_gateways steps j)"
proof (induction steps j rule: skip_gateways.induct)
  case (1 steps idx)
  show ?case
  proof (cases "idx < length steps \<and> is_gateway (steps ! idx)")
    case True
    then have s: "skip_gateways steps idx = skip_gateways steps (idx + 1)"
      by (subst skip_gateways.simps) simp
    show ?thesis using 1 True by (simp add: s)
  next
    case False
    then have s: "skip_gateways steps idx = idx"
      by (subst skip_gateways.simps) auto
    show ?thesis using 1(2) False by (simp add: s)
  qed
qed

lemma absorb_gateways_eq:
  "absorb_gateways steps m j =
     (if skip_gateways steps j = j then m else skip_gateways steps j - 1, skip_gateways steps j)"
proof (induction steps m j rule: absorb_gateways.induct)
  case (1 steps merge_end j)
  show ?case
  proof (cases "j < length steps \<and> is_gateway (steps ! j)")
    case True
    have gt: "j < skip_gateways steps (Suc j)" by (rule skip_gateways_gt)
    have s: "skip_gateways steps j = skip_gateways steps (Suc j)"
      using True by (subst skip_gateways.simps) simp
    show ?thesis
      using True 1 gt by (subst absorb_gateways.simps) (auto simp: s)
  next
    case False
    then have s: "skip_gateways steps j = j"
      by (subst skip_gateways.simps) auto
    show ?thesis
      using False by (subst absorb_gateways.simps) (auto simp: s)
  qed
qed

lemma absorb_gateways_Suc:
  "absorb_gateways steps m (Suc m) =
     (m + length (takeWhile is_gateway (drop (Suc m) steps)),
      Suc (m + length (takeWhile is_gateway (drop (Suc m) steps))))"
  by (simp add: absorb_gateways_eq skip_gateways_eq)

text \<open>
  What a group range with key \<open>g\<close> absorbs after its first member: a gateway step, or
  a step whose \<open>sla_group\<close> equals \<open>g\<close>.
\<close>

definition absorbed :: "string option \<Rightarrow> step \<Rightarrow> bool" where
  "absorbed g s = (is_gateway s \<or> sla_group s = g)"

lemma takeWhile_weaker:
  "(\<And>x. Q x \<Longrightarrow> P x) \<Longrightarrow> takeWhile P xs = takeWhile Q xs @ takeWhile P (dropWhile Q xs)"
  by (induction xs) auto

lemma dropWhile_drop_skip:
  "dropWhile is_gateway (drop j steps) = drop (skip_gateways steps j) steps"
  by (simp add: skip_gateways_eq dropWhile_eq_drop add.commute)

lemma absorb_group_eq:
  "(j < length steps \<Longrightarrow> \<not> is_gateway (steps ! j)) \<Longrightarrow> Suc m = j \<Longrightarrow>
   absorb_group steps g m j =
     (m + length (takeWhile (absorbed g) (drop j steps)),
      j + length (takeWhile (absorbed g) (drop j steps)))"
proof (induction steps g m j rule: absorb_group.induct)
  case (1 steps g merge_end j)
  show ?case
  proof (cases "j < length steps \<and> sla_group (steps ! j) = g")
    case True
    let ?j' = "skip_gateways steps (Suc j)"
    have a: "absorb_gateways steps j (j + 1) = (?j' - 1, ?j')"
      using skip_gateways_gt [of j steps] by (simp add: absorb_gateways_eq)
    have unf: "absorb_group steps g merge_end j = absorb_group steps g (?j' - 1) ?j'"
      using True a by (subst absorb_group.simps) simp
    have ng: "?j' < length steps \<Longrightarrow> \<not> is_gateway (steps ! ?j')"
      by (rule skip_gateways_stop)
    have S: "Suc (?j' - 1) = ?j'" using skip_gateways_gt [of j steps] by simp
    have ih: "absorb_group steps g (?j' - 1) ?j' =
       (?j' - 1 + length (takeWhile (absorbed g) (drop ?j' steps)),
        ?j' + length (takeWhile (absorbed g) (drop ?j' steps)))"
      using "1.IH" [OF True a [symmetric] ng S] by simp
    have d: "drop j steps = steps ! j # drop (Suc j) steps"
      using True by (simp add: Cons_nth_drop_Suc)
    have tw: "takeWhile (absorbed g) (drop (Suc j) steps) =
        takeWhile is_gateway (drop (Suc j) steps) @ takeWhile (absorbed g) (drop ?j' steps)"
      using takeWhile_weaker [of is_gateway "absorbed g" "drop (Suc j) steps"]
      by (simp add: absorbed_def dropWhile_drop_skip)
    have j': "?j' = Suc j + length (takeWhile is_gateway (drop (Suc j) steps))"
      by (simp add: skip_gateways_eq)
    have len: "length (takeWhile (absorbed g) (drop j steps)) =
        Suc (length (takeWhile is_gateway (drop (Suc j) steps)) +
             length (takeWhile (absorbed g) (drop ?j' steps)))"
      using True by (simp add: d tw absorbed_def)
    show ?thesis
      unfolding unf ih len using "1.prems"(2) j' by simp
  next
    case False
    then have "takeWhile (absorbed g) (drop j steps) = []"
      using "1.prems"(1)
      by (cases "j < length steps") (auto simp: Cons_nth_drop_Suc [symmetric] absorbed_def)
    then show ?thesis
      using False by (subst absorb_group.simps) auto
  qed
qed

section \<open>One turn of the scan\<close>

text \<open>
  Lengths of the runs the scan absorbs from position \<open>j\<close> on: the gateway steps
  standing immediately at \<open>j\<close>, and the steps a group range with key \<open>g\<close> absorbs.
\<close>

definition gateway_run :: "step list \<Rightarrow> nat \<Rightarrow> nat" where
  "gateway_run steps j = length (takeWhile is_gateway (drop j steps))"

definition group_run :: "string option \<Rightarrow> step list \<Rightarrow> nat \<Rightarrow> nat" where
  "group_run g steps j = length (takeWhile (absorbed g) (drop j steps))"

lemma sla_merges_from_own:
  assumes "idx < length steps" "truthy (sla (steps ! idx))" "\<not> truthy (sla_group (steps ! idx))"
  shows "sla_merges_from steps idx =
    (idx, idx + gateway_run steps (Suc idx), sla (steps ! idx))
      # sla_merges_from steps (Suc (idx + gateway_run steps (Suc idx)))"
  using assms
  by (subst sla_merges_from.simps) (simp add: Let_def absorb_gateways_Suc gateway_run_def)

lemma group_run_split:
  "group_run g steps j = gateway_run steps j + group_run g steps (j + gateway_run steps j)"
  using takeWhile_weaker [of is_gateway "absorbed g" "drop j steps"]
  by (simp add: group_run_def gateway_run_def absorbed_def dropWhile_drop_skip skip_gateways_eq)

lemma sla_merges_from_group:
  assumes "idx < length steps" "truthy (sla_group (steps ! idx))"
  shows "sla_merges_from steps idx =
    (idx, idx + group_run (sla_group (steps ! idx)) steps (Suc idx), sla (steps ! idx))
      # sla_merges_from steps (Suc (idx + group_run (sla_group (steps ! idx)) steps (Suc idx)))"
proof -
  let ?n = "gateway_run steps (Suc idx)"
  let ?g = "sla_group (steps ! idx)"
  have j: "Suc (idx + ?n) = skip_gateways steps (Suc idx)"
    by (simp add: Let_def skip_gateways_eq gateway_run_def)
  have ng: "Suc (idx + ?n) < length steps \<Longrightarrow> \<not> is_gateway (steps ! Suc (idx + ?n))"
    unfolding j by (rule skip_gateways_stop)
  have g: "absorb_group steps ?g (idx + ?n) (Suc (idx + ?n)) =
      (idx + ?n + group_run ?g steps (Suc (idx + ?n)),
       Suc (idx + ?n) + group_run ?g steps (Suc (idx + ?n)))"
    using absorb_group_eq [OF ng refl] by (simp add: group_run_def)
  have sp: "group_run ?g steps (Suc idx) = ?n + group_run ?g steps (Suc (idx + ?n))"
    using group_run_split [of ?g steps "Suc idx"] by simp
  show ?thesis
    using assms
    by (subst sla_merges_from.simps)
       (simp add: Let_def absorb_gateways_Suc gateway_run_def [symmetric] g sp add.assoc)
qed

lemma sla_merges_from_none:
  assumes "idx < length steps" "\<not> truthy (sla (steps ! idx))" "\<not> truthy (sla_group (steps ! idx))"
  shows "sla_merges_from steps idx = sla_merges_from steps (Suc (idx + gateway_run steps (Suc idx)))"
  using assms
  by (subst sla_merges_from.simps) (simp add: Let_def skip_gateways_eq gateway_run_def)

lemma sla_merges_from_end: "length steps \<le> idx \<Longrightarrow> sla_merges_from steps idx = []"
  by (subst sla_merges_from.simps) simp

section \<open>Ranges produced by the scan\<close>

lemma takeWhile_drop_all:
  "k < length (takeWhile P (drop j xs)) \<Longrightarrow> P (xs ! (j + k))"
proof -
  assume k: "k < length (takeWhile P (drop j xs))"
  then have "takeWhile P (drop j xs) ! k \<in> set (takeWhile P (drop j xs))"
    by simp
  then have "P (takeWhile P (drop j xs) ! k)"
    by (rule set_takeWhileD [THEN conjunct2])
  moreover have "takeWhile P (drop j xs) ! k = drop j xs ! k"
    using k by (rule takeWhile_nth)
  moreover have "j + k < length xs"
    using k length_takeWhile_le [of P "drop j xs"] by simp
  ultimately show ?thesis by simp
qed

lemma takeWhile_drop_stop:
  "j + length (takeWhile P (drop j xs)) < length xs \<Longrightarrow>
   \<not> P (xs ! (j + length (takeWhile P (drop j xs))))"
  using nth_length_takeWhile [of P "drop j xs"] by simp

lemma takeWhile_drop_bound:
  "j \<le> length xs \<Longrightarrow> j + length (takeWhile P (drop j xs)) \<le> length xs"
  using length_takeWhile_le [of P "drop j xs"] by simp

lemma gateway_run_bound: "idx < length steps \<Longrightarrow> idx + gateway_run steps (Suc idx) < length steps"
  using takeWhile_drop_bound [of "Suc idx" steps is_gateway] by (simp add: gateway_run_def)

lemma group_run_bound: "idx < length steps \<Longrightarrow> idx + group_run g steps (Suc idx) < length steps"
  using takeWhile_drop_bound [of "Suc idx" steps "absorbed g"] by (simp add: group_run_def)

lemma gateway_run_all:
  "idx < k \<Longrightarrow> k \<le> idx + gateway_run steps (Suc idx) \<Longrightarrow> is_gateway (steps ! k)"
  using takeWhile_drop_all [of "k - Suc idx" is_gateway "Suc idx" steps]
  by (simp add: gateway_run_def)

lemma gateway_run_stop:
  "Suc (idx + gateway_run steps (Suc idx)) < length steps \<Longrightarrow>
   \<not> is_gateway (steps ! Suc (idx + gateway_run steps (Suc idx)))"
  using takeWhile_drop_stop [of "Suc idx" is_gateway steps]
  by (simp add: gateway_run_def)

lemma group_run_all:
  "idx < k \<Longrightarrow> k \<le> idx + group_run g steps (Suc idx) \<Longrightarrow> absorbed g (steps ! k)"
  using takeWhile_drop_all [of "k - Suc idx" "absorbed g" "Suc idx" steps]
  by (simp add: group_run_def)

lemma group_run_stop:
  "Suc (idx + group_run g steps (Suc idx)) < length steps \<Longrightarrow>
   \<not> absorbed g (steps ! Suc (idx + group_run g steps (Suc idx)))"
  using takeWhile_drop_stop [of "Suc idx" "absorbed g" steps]
  by (simp add: group_run_def)

text \<open>The end index of the range the scan opens at \<open>idx\<close>.\<close>

definition range_end :: "step list \<Rightarrow> nat \<Rightarrow> nat" where
  "range_end steps idx =
     (if truthy (sla_group (steps ! idx))
      then idx + group_run (sla_group (steps ! idx)) steps (Suc idx)
      else idx + gateway_run steps (Suc idx))"

text \<open>A step at which the scan opens a range: the first or the second branch is taken.\<close>

definition owner :: "step \<Rightarrow> bool" where
  "owner s = (truthy (sla s) \<or> truthy (sla_group s))"

lemma sla_merges_from_owner:
  "idx < length steps \<Longrightarrow> owner (steps ! idx) \<Longrightarrow>
   sla_merges_from steps idx =
     (idx, range_end steps idx, sla (steps ! idx)) # sla_merges_from steps (Suc (range_end steps idx))"
  by (cases "truthy (sla_group (steps ! idx))")
     (simp_all add: owner_def range_end_def sla_merges_from_group sla_merges_from_own)

lemma sla_merges_from_skip:
  "idx < length steps \<Longrightarrow> \<not> owner (steps ! idx) \<Longrightarrow>
   sla_merges_from steps idx = sla_merges_from steps (Suc (idx + gateway_run steps (Suc idx)))"
  by (simp add: owner_def sla_merges_from_none)

lemma range_end_bounds: "idx < length steps \<Longrightarrow> idx \<le> range_end steps idx \<and> range_end steps idx < length steps"
  by (simp add: range_end_def gateway_run_bound group_run_bound)

lemma scan_induct [case_names stop range skip]:
  assumes stop: "\<And>idx. length steps \<le> idx \<Longrightarrow> P idx"
    and range: "\<And>idx. idx < length steps \<Longrightarrow> owner (steps ! idx) \<Longrightarrow>
        P (Suc (range_end steps idx)) \<Longrightarrow> P idx"
    and skip: "\<And>idx. idx < length steps \<Longrightarrow> \<not> owner (steps ! idx) \<Longrightarrow>
        P (Suc (idx + gateway_run steps (Suc idx))) \<Longrightarrow> P idx"
  shows "P idx"
proof (induction "length steps - idx" arbitrary: idx rule: less_induct)
  case less
  show ?case
  proof (cases "idx < length steps")
    case False
    then show ?thesis by (simp add: stop)
  next
    case True
    show ?thesis
    proof (cases "owner (steps ! idx)")
      case True
      have "length steps - Suc (range_end steps idx) < length steps - idx"
        using range_end_bounds [OF \<open>idx < length steps\<close>] by linarith
      then show ?thesis
        using range [OF \<open>idx < length steps\<close> True] less by blast
    next
      case False
      have "length steps - Suc (idx + gateway_run steps (Suc idx)) < length steps - idx"
        using \<open>idx < length steps\<close> by linarith
      then show ?thesis
        using skip [OF \<open>idx < length steps\<close> False] less by blast
    qed
  qed
qed

text \<open>Ranges in scan order: each starts at or after \<open>lo\<close>, and the next one after its end.\<close>

fun ranges_from :: "nat \<Rightarrow> merge_range list \<Rightarrow> bool" where
  "ranges_from lo [] = True"
| "ranges_from lo ((s, e, v) # rs) = (lo \<le> s \<and> s \<le> e \<and> ranges_from (Suc e) rs)"

lemma ranges_from_mono: "ranges_from lo rs \<Longrightarrow> lo' \<le> lo \<Longrightarrow> ranges_from lo' rs"
  by (cases rs) auto

lemma sla_merges_from_ranges: "ranges_from idx (sla_merges_from steps idx)"
proof (induction idx rule: scan_induct [of steps])
  case (stop idx)
  then show ?case by (simp add: sla_merges_from_end)
next
  case (range idx)
  then show ?case
    using range_end_bounds [of idx steps] by (simp add: sla_merges_from_owner)
next
  case (skip idx)
  then show ?case
    by (auto simp: sla_merges_from_skip intro: ranges_from_mono)
qed

text \<open>Every range the scan yields is the range opened at its own start index.\<close>

lemma sla_merges_from_member:
  "(s, e, v) \<in> set (sla_merges_from steps idx) \<Longrightarrow>
   idx \<le> s \<and> s < length steps \<and> owner (steps ! s) \<and> e = range_end steps s \<and> v = sla (steps ! s)"
proof (induction idx rule: scan_induct [of steps])
  case (stop idx)
  then show ?case by (simp add: sla_merges_from_end)
next
  case (range idx)
  then show ?case
    using range_end_bounds [of idx steps] by (auto simp: sla_merges_from_owner)
next
  case (skip idx)
  then show ?case
    by (auto simp: sla_merges_from_skip)
qed

lemma ranges_from_member: "ranges_from lo rs \<Longrightarrow> (s, e, v) \<in> set rs \<Longrightarrow> lo \<le> s \<and> s \<le> e"
proof (induction rs arbitrary: lo)
  case Nil
  then show ?case by simp
next
  case (Cons r rs)
  obtain s' e' v' where r: "r = (s', e', v')" by (cases r)
  show ?case
    using Cons.prems Cons.IH [of "Suc e'"] by (auto simp: r)
qed

lemma ranges_from_nth:
  "ranges_from lo rs \<Longrightarrow> a < b \<Longrightarrow> b < length rs \<Longrightarrow> fst (snd (rs ! a)) < fst (rs ! b)"
proof (induction rs arbitrary: lo a b)
  case Nil
  then show ?case by simp
next
  case (Cons r rs)
  obtain s' e' v' where r: "r = (s', e', v')" by (cases r)
  from Cons.prems obtain b' where b: "b = Suc b'" by (cases b) auto
  show ?case
  proof (cases a)
    case 0
    obtain s e v where nb: "rs ! b' = (s, e, v)" by (cases "rs ! b'")
    have "(s, e, v) \<in> set rs" using Cons.prems b nb by (metis nth_mem Suc_less_eq length_Cons)
    then have "Suc e' \<le> s"
      using ranges_from_member [of "Suc e'" rs s e v] Cons.prems(1) by (simp add: r)
    then show ?thesis by (simp add: 0 b r nb)
  next
    case (Suc a')
    then show ?thesis
      using Cons.prems Cons.IH [of "Suc e'" a' b'] by (simp add: b r)
  qed
qed

section \<open>Reach of the scan, and what its result depends on\<close>

lemma range_end_all:
  "idx < k \<Longrightarrow> k \<le> range_end steps idx \<Longrightarrow>
   is_gateway (steps ! k) \<or>
   (truthy (sla_group (steps ! idx)) \<and> sla_group (steps ! k) = sla_group (steps ! idx))"
  using group_run_all [of idx k "sla_group (steps ! idx)" steps] gateway_run_all [of idx k steps]
  by (auto simp: range_end_def absorbed_def split: if_splits)

lemma range_end_stop:
  "Suc (range_end steps idx) < length steps \<Longrightarrow> \<not> is_gateway (steps ! Suc (range_end steps idx))"
  using group_run_stop [of idx "sla_group (steps ! idx)" steps] gateway_run_stop [of idx steps]
  by (auto simp: range_end_def absorbed_def split: if_splits)

lemma scan_reaches:
  assumes i: "i < length steps" and own: "owner (steps ! i)"
    and ng: "\<not> truthy (sla_group (steps ! i))"
  shows "idx \<le> i \<Longrightarrow> idx = i \<or> \<not> is_gateway (steps ! i) \<Longrightarrow>
    (i, range_end steps i, sla (steps ! i)) \<in> set (sla_merges_from steps idx)"
proof (induction idx rule: scan_induct [of steps])
  case (stop idx)
  then show ?case using i by simp
next
  case (range idx)
  show ?case
  proof (cases "idx = i")
    case True
    then show ?thesis using range.hyps by (simp add: sla_merges_from_owner)
  next
    case False
    then have lt: "idx < i" and g: "\<not> is_gateway (steps ! i)" using range.prems by auto
    have "\<not> i \<le> range_end steps idx"
      using range_end_all [OF lt, of steps] g ng by auto
    then have "Suc (range_end steps idx) \<le> i" by simp
    then show ?thesis
      using range.IH g range.hyps by (simp add: sla_merges_from_owner)
  qed
next
  case (skip idx)
  have ne: "idx \<noteq> i" using skip.hyps own by auto
  then have lt: "idx < i" and g: "\<not> is_gateway (steps ! i)" using skip.prems by auto
  have "\<not> i \<le> idx + gateway_run steps (Suc idx)"
    using gateway_run_all [OF lt, of steps] g by auto
  then have "Suc (idx + gateway_run steps (Suc idx)) \<le> i" by simp
  then show ?case
    using skip.IH g skip.hyps by (simp add: sla_merges_from_skip)
qed









text \<open>
  A step that is no gateway and follows, over gateways only, a step that is no gateway
  and carries another group key or none: the scan stands at it.
\<close>

lemma scan_reaches_run:
  assumes i: "i < length steps" and own: "owner (steps ! i)" and ngi: "\<not> is_gateway (steps ! i)"
    and p: "p < i" and ngp: "\<not> is_gateway (steps ! p)"
    and key: "sla_group (steps ! p) \<noteq> sla_group (steps ! i)"
    and gws: "\<forall>k. p < k \<and> k < i \<longrightarrow> is_gateway (steps ! k)"
  shows "idx \<le> p \<or> idx = i \<Longrightarrow>
    (i, range_end steps i, sla (steps ! i)) \<in> set (sla_merges_from steps idx)"
proof (induction idx rule: scan_induct [of steps])
  case (stop idx)
  then show ?case using i p by auto
next
  case (range idx)
  show ?case
  proof (cases "idx = i")
    case True
    then show ?thesis using range.hyps by (simp add: sla_merges_from_owner)
  next
    case False
    then have le: "idx \<le> p" using range.prems by simp
    let ?re = "range_end steps idx"
    have not_i: "\<not> i \<le> ?re"
    proof
      assume a: "i \<le> ?re"
      have "idx < i" using le p by simp
      from range_end_all [OF this a] ngi
      have g: "truthy (sla_group (steps ! idx))" "sla_group (steps ! i) = sla_group (steps ! idx)"
        by auto
      show False
      proof (cases "idx = p")
        case True
        then show False using g key by simp
      next
        case False
        then have "idx < p" "p \<le> ?re" using le a p by simp_all
        from range_end_all [OF this] ngp g key show False by simp
      qed
    qed
    have next_pos: "Suc ?re \<le> p \<or> Suc ?re = i"
    proof (cases "Suc ?re \<le> p")
      case True
      then show ?thesis by simp
    next
      case False
      then have gt: "p < Suc ?re" by simp
      have "\<not> Suc ?re < i"
      proof
        assume lt: "Suc ?re < i"
        then have "is_gateway (steps ! Suc ?re)" using gws gt by blast
        moreover have "Suc ?re < length steps" using lt i by simp
        ultimately show False using range_end_stop [of steps idx] by simp
      qed
      then show ?thesis using not_i by simp
    qed
    then show ?thesis
      using range.IH range.hyps by (simp add: sla_merges_from_owner)
  qed
next
  case (skip idx)
  have ne: "idx \<noteq> i" using skip.hyps own by auto
  then have le: "idx \<le> p" using skip.prems by simp
  let ?nx = "Suc (idx + gateway_run steps (Suc idx))"
  have not_i: "\<not> i < ?nx"
  proof
    assume "i < ?nx"
    then have "idx < i" "i \<le> idx + gateway_run steps (Suc idx)" using le p by simp_all
    from gateway_run_all [OF this] ngi show False by simp
  qed
  have next_pos: "?nx \<le> p \<or> ?nx = i"
  proof (cases "?nx \<le> p")
    case True
    then show ?thesis by simp
  next
    case False
    then have gt: "p < ?nx" by simp
    have "\<not> ?nx < i"
    proof
      assume lt: "?nx < i"
      then have "is_gateway (steps ! ?nx)" using gws gt by blast
      moreover have "?nx < length steps" using lt i by simp
      ultimately show False using gateway_run_stop [of idx steps] by simp
    qed
    then show ?thesis using not_i by simp
  qed
  then show ?case
    using skip.IH skip.hyps by (simp add: sla_merges_from_skip)
qed

text \<open>Behind its first position the scan only stands on steps that are no gateways.\<close>

lemma sla_merges_from_start:
  "(s, e, v) \<in> set (sla_merges_from steps idx) \<Longrightarrow> s = idx \<or> \<not> is_gateway (steps ! s)"
proof (induction idx rule: scan_induct [of steps])
  case (stop idx)
  then show ?case by (simp add: sla_merges_from_end)
next
  case (range idx)
  show ?case
  proof (cases "s = idx")
    case True
    then show ?thesis by simp
  next
    case False
    then have t: "(s, e, v) \<in> set (sla_merges_from steps (Suc (range_end steps idx)))"
      using range.prems range.hyps by (simp add: sla_merges_from_owner)
    from sla_merges_from_member [OF t] have "s < length steps" by simp
    then show ?thesis
      using range.IH [OF t] range_end_stop [of steps idx] by auto
  qed
next
  case (skip idx)
  then have t: "(s, e, v) \<in> set (sla_merges_from steps (Suc (idx + gateway_run steps (Suc idx))))"
    by (simp add: sla_merges_from_skip)
  from sla_merges_from_member [OF t] have "s < length steps" by simp
  then show ?case
    using skip.IH [OF t] gateway_run_stop [of idx steps] by auto
qed

section \<open>Example step sequences\<close>

definition plain_step :: step where
  "plain_step = \<lparr>ref = [], paragraphs = [], raci = None, is_gateway = False,
     sla = None, sla_group = None\<rparr>"

definition gateway_step :: step where
  "gateway_step = plain_step\<lparr>is_gateway := True\<rparr>"

definition own_sla_example :: "step list" where
  "own_sla_example =
     [plain_step\<lparr>sla := Some ''4h''\<rparr>, gateway_step, gateway_step, plain_step]"

definition group_example :: "step list" where
  "group_example =
     [plain_step, plain_step,
      plain_step\<lparr>sla := Some ''24h'', sla_group := Some ''G''\<rparr>,
      gateway_step,
      plain_step\<lparr>sla := Some ''24h'', sla_group := Some ''G''\<rparr>]"

definition group_gateway_example :: "step list" where
  "group_gateway_example =
     [plain_step, plain_step,
      plain_step\<lparr>sla := Some ''24h'', sla_group := Some ''G''\<rparr>,
      gateway_step\<lparr>sla := Some ''24h'', sla_group := Some ''G''\<rparr>,
      plain_step\<lparr>sla := Some ''24h'', sla_group := Some ''G''\<rparr>]"

definition gateway_owner_example :: "step list" where
  "gateway_owner_example = [gateway_step\<lparr>sla := Some ''4h''\<rparr>]"

definition two_ranges_example :: "step list" where
  "two_ranges_example =
     [plain_step\<lparr>sla := Some ''4h''\<rparr>, gateway_step, plain_step\<lparr>sla := Some ''2h''\<rparr>]"



lemmas scan_eval = sla_merges_def sla_merges_from.simps absorb_gateways.simps absorb_group.simps
  skip_gateways.simps truthy_def plain_step_def gateway_step_def Let_def

lemma own_sla_example_ranges: "sla_merges own_sla_example = [(0, 2, Some ''4h'')]"
  by (simp add: own_sla_example_def scan_eval)

lemma group_example_ranges: "sla_merges group_example = [(2, 4, Some ''24h'')]"
  by (simp add: group_example_def scan_eval)

lemma group_gateway_example_ranges: "sla_merges group_gateway_example = [(2, 4, Some ''24h'')]"
  by (simp add: group_gateway_example_def scan_eval)

lemma gateway_owner_example_ranges: "sla_merges gateway_owner_example = [(0, 0, Some ''4h'')]"
  by (simp add: gateway_owner_example_def scan_eval)

lemma two_ranges_example_ranges:
  "sla_merges two_ranges_example = [(0, 1, Some ''4h''), (2, 2, Some ''2h'')]"
  by (simp add: two_ranges_example_def scan_eval)



section \<open>Claims about the planner\<close>

text \<open>
  C1.  When the scan stands at a step \<open>i\<close> with a non-empty \<open>sla\<close> and no \<open>sla_group\<close>,
  it opens a range at \<open>i\<close> valued with that \<open>sla\<close>, extends it through every gateway
  step that immediately follows (every index of the range after \<open>i\<close> is a gateway, and
  the step after the range, if any, is not), closes it there and goes on behind it.
  The scan stands at \<open>i\<close> whenever \<open>i\<close> is the first step or not a gateway, and the range
  is then one of the planner's.  For \<open>[A(sla = 4h), gateway, gateway, B]\<close> the planner
  yields the one range \<open>(0, 2, 4h)\<close>, so index 3 is in no range.
\<close>

theorem own_sla_opens_range:
  assumes "i < length steps"
    and "truthy (sla (steps ! i))"
    and "\<not> truthy (sla_group (steps ! i))"
  shows "sla_merges_from steps i =
           (i, i + gateway_run steps (Suc i), sla (steps ! i))
             # sla_merges_from steps (Suc (i + gateway_run steps (Suc i)))
       \<and> (\<forall>k. i < k \<and> k \<le> i + gateway_run steps (Suc i) \<longrightarrow> is_gateway (steps ! k))
       \<and> (Suc (i + gateway_run steps (Suc i)) < length steps \<longrightarrow>
            \<not> is_gateway (steps ! Suc (i + gateway_run steps (Suc i))))
       \<and> (i = 0 \<or> \<not> is_gateway (steps ! i) \<longrightarrow>
            (i, i + gateway_run steps (Suc i), sla (steps ! i)) \<in> set (sla_merges steps))
       \<and> sla_merges own_sla_example = [(0, 2, Some ''4h'')]"
proof -
  let ?e = "i + gateway_run steps (Suc i)"
  have own: "owner (steps ! i)" using assms(2) by (simp add: owner_def)
  have re: "range_end steps i = ?e"
    using assms(3) by (simp add: range_end_def)
  have turn: "sla_merges_from steps i =
      (i, ?e, sla (steps ! i)) # sla_merges_from steps (Suc ?e)"
    by (rule sla_merges_from_own [OF assms])
  have inside: "\<forall>k. i < k \<and> k \<le> ?e \<longrightarrow> is_gateway (steps ! k)"
    using gateway_run_all [of i _ steps] by blast
  have after: "Suc ?e < length steps \<longrightarrow> \<not> is_gateway (steps ! Suc ?e)"
    using gateway_run_stop [of i steps] by blast
  have reached: "i = 0 \<or> \<not> is_gateway (steps ! i) \<longrightarrow>
      (i, ?e, sla (steps ! i)) \<in> set (sla_merges steps)"
    using scan_reaches [OF assms(1) own assms(3), of 0] by (auto simp: re sla_merges_def)
  show ?thesis
    using turn inside after reached own_sla_example_ranges by blast
qed

theorem own_sla_opens_range_witness:
  "0 < length own_sla_example
   \<and> truthy (sla (own_sla_example ! 0))
   \<and> \<not> truthy (sla_group (own_sla_example ! 0))
   \<and> gateway_run own_sla_example (Suc 0) = 2
   \<and> sla_merges_from own_sla_example 0 = (0, 2, Some ''4h'') # sla_merges_from own_sla_example 3
   \<and> is_gateway (own_sla_example ! 1) \<and> is_gateway (own_sla_example ! 2)
   \<and> \<not> is_gateway (own_sla_example ! 3)
   \<and> (0, 2, Some ''4h'') \<in> set (sla_merges own_sla_example)"
proof -
  have h: "0 < length own_sla_example" "truthy (sla (own_sla_example ! 0))"
    "\<not> truthy (sla_group (own_sla_example ! 0))"
    by (simp_all add: own_sla_example_def plain_step_def gateway_step_def truthy_def)
  have g: "gateway_run own_sla_example (Suc 0) = 2"
    by (simp add: gateway_run_def own_sla_example_def plain_step_def gateway_step_def)
  have v: "sla (own_sla_example ! 0) = Some ''4h''"
    by (simp add: own_sla_example_def plain_step_def)
  have gw: "is_gateway (own_sla_example ! 1)" "is_gateway (own_sla_example ! 2)"
    "\<not> is_gateway (own_sla_example ! 3)"
    by (simp_all add: own_sla_example_def plain_step_def gateway_step_def)
  show ?thesis
    using own_sla_opens_range [OF h] h gw
    by (simp add: g v numeral_3_eq_3)
qed

text \<open>
  C2.  When the scan stands at a step \<open>i\<close> with a non-empty \<open>sla_group\<close>, it opens a
  range at \<open>i\<close> valued with that step's \<open>sla\<close> and absorbs, step after step, every
  gateway and every step carrying the same \<open>sla_group\<close>; it stops at the first
  non-gateway step whose key differs or is absent, or at the end of the sequence, and
  goes on from there.  The scan stands at \<open>i\<close> when \<open>i\<close> is the first step, and when
  step \<open>i\<close> is no gateway and the nearest step before it that is no gateway carries
  another key or none; the range is then one of the planner's.  For steps sharing \<open>sla_group = G\<close>, \<open>sla = 24h\<close> at indices 2 to
  4 with a gateway at index 3 (carrying the group key or not) the planner yields the
  single range \<open>(2, 4, 24h)\<close>.
\<close>

theorem group_opens_range:
  assumes "i < length steps"
    and "truthy (sla_group (steps ! i))"
  shows "sla_merges_from steps i =
           (i, i + group_run (sla_group (steps ! i)) steps (Suc i), sla (steps ! i))
             # sla_merges_from steps (Suc (i + group_run (sla_group (steps ! i)) steps (Suc i)))
       \<and> (\<forall>k. i < k \<and> k \<le> i + group_run (sla_group (steps ! i)) steps (Suc i) \<longrightarrow>
              is_gateway (steps ! k) \<or> sla_group (steps ! k) = sla_group (steps ! i))
       \<and> (Suc (i + group_run (sla_group (steps ! i)) steps (Suc i)) < length steps \<longrightarrow>
              \<not> is_gateway (steps ! Suc (i + group_run (sla_group (steps ! i)) steps (Suc i)))
            \<and> sla_group (steps ! Suc (i + group_run (sla_group (steps ! i)) steps (Suc i)))
                \<noteq> sla_group (steps ! i))
       \<and> (i = 0
            \<or> (\<not> is_gateway (steps ! i)
                \<and> (\<exists>p. p < i \<and> \<not> is_gateway (steps ! p)
                       \<and> sla_group (steps ! p) \<noteq> sla_group (steps ! i)
                       \<and> (\<forall>k. p < k \<and> k < i \<longrightarrow> is_gateway (steps ! k))))
          \<longrightarrow> (i, i + group_run (sla_group (steps ! i)) steps (Suc i), sla (steps ! i))
                 \<in> set (sla_merges steps))
       \<and> sla_merges group_example = [(2, 4, Some ''24h'')]
       \<and> sla_merges group_gateway_example = [(2, 4, Some ''24h'')]"
proof -
  let ?g = "sla_group (steps ! i)"
  let ?e = "i + group_run ?g steps (Suc i)"
  have turn: "sla_merges_from steps i =
      (i, ?e, sla (steps ! i)) # sla_merges_from steps (Suc ?e)"
    by (rule sla_merges_from_group [OF assms])
  have inside: "\<forall>k. i < k \<and> k \<le> ?e \<longrightarrow> is_gateway (steps ! k) \<or> sla_group (steps ! k) = ?g"
    using group_run_all [of i _ ?g steps] by (auto simp: absorbed_def)
  have after: "Suc ?e < length steps \<longrightarrow>
      \<not> is_gateway (steps ! Suc ?e) \<and> sla_group (steps ! Suc ?e) \<noteq> ?g"
    using group_run_stop [of i ?g steps] by (auto simp: absorbed_def)
  have own: "owner (steps ! i)" using assms(2) by (simp add: owner_def)
  have re: "range_end steps i = ?e" using assms(2) by (simp add: range_end_def)
  have reached: "i = 0
        \<or> (\<not> is_gateway (steps ! i)
            \<and> (\<exists>p. p < i \<and> \<not> is_gateway (steps ! p)
                   \<and> sla_group (steps ! p) \<noteq> ?g
                   \<and> (\<forall>k. p < k \<and> k < i \<longrightarrow> is_gateway (steps ! k))))
      \<longrightarrow> (i, ?e, sla (steps ! i)) \<in> set (sla_merges steps)"
  proof
    assume "i = 0
        \<or> (\<not> is_gateway (steps ! i)
            \<and> (\<exists>p. p < i \<and> \<not> is_gateway (steps ! p)
                   \<and> sla_group (steps ! p) \<noteq> ?g
                   \<and> (\<forall>k. p < k \<and> k < i \<longrightarrow> is_gateway (steps ! k))))"
    then show "(i, ?e, sla (steps ! i)) \<in> set (sla_merges steps)"
    proof
      assume "i = 0"
      then show ?thesis using turn by (simp add: sla_merges_def)
    next
      assume "\<not> is_gateway (steps ! i)
            \<and> (\<exists>p. p < i \<and> \<not> is_gateway (steps ! p)
                   \<and> sla_group (steps ! p) \<noteq> ?g
                   \<and> (\<forall>k. p < k \<and> k < i \<longrightarrow> is_gateway (steps ! k)))"
      then obtain p where ngi: "\<not> is_gateway (steps ! i)" and p: "p < i"
        and ngp: "\<not> is_gateway (steps ! p)" and key: "sla_group (steps ! p) \<noteq> ?g"
        and gws: "\<forall>k. p < k \<and> k < i \<longrightarrow> is_gateway (steps ! k)"
        by blast
      from scan_reaches_run [OF assms(1) own ngi p ngp key gws, of 0]
      show ?thesis by (simp add: re sla_merges_def)
    qed
  qed
  show ?thesis
    using turn inside after reached group_example_ranges group_gateway_example_ranges by blast
qed

theorem group_opens_range_witness:
  "2 < length group_example
   \<and> truthy (sla_group (group_example ! 2))
   \<and> group_run (Some ''G'') group_example 3 = 2
   \<and> sla_merges_from group_example 2 = (2, 4, Some ''24h'') # sla_merges_from group_example 5
   \<and> is_gateway (group_example ! 3)
   \<and> sla_group (group_example ! 4) = Some ''G''
   \<and> sla_merges_from group_example 5 = []
   \<and> \<not> is_gateway (group_example ! 1)
   \<and> sla_group (group_example ! 1) = None
   \<and> (2, 4, Some ''24h'') \<in> set (sla_merges group_example)"
proof -
  have h: "2 < length group_example" "truthy (sla_group (group_example ! 2))"
    by (simp_all add: group_example_def plain_step_def gateway_step_def truthy_def)
  have k: "sla_group (group_example ! 2) = Some ''G''" "sla (group_example ! 2) = Some ''24h''"
    by (simp_all add: group_example_def plain_step_def)
  have g: "group_run (Some ''G'') group_example 3 = 2"
    by (simp add: group_run_def absorbed_def group_example_def plain_step_def gateway_step_def
        numeral_3_eq_3)
  have m: "is_gateway (group_example ! 3)" "sla_group (group_example ! 4) = Some ''G''"
    by (simp_all add: group_example_def plain_step_def gateway_step_def)
  have e: "sla_merges_from group_example 5 = []"
    by (rule sla_merges_from_end) (simp add: group_example_def)
  have q: "\<not> is_gateway (group_example ! 2)" "\<not> is_gateway (group_example ! 1)"
    "sla_group (group_example ! 1) = None"
    by (simp_all add: group_example_def plain_step_def gateway_step_def)
  have "\<exists>p. p < 2 \<and> \<not> is_gateway (group_example ! p)
      \<and> sla_group (group_example ! p) \<noteq> sla_group (group_example ! 2)
      \<and> (\<forall>k. p < k \<and> k < 2 \<longrightarrow> is_gateway (group_example ! k))"
  proof (intro exI [of _ 1] conjI allI impI)
    fix j :: nat assume "1 < j \<and> j < 2"
    then show "is_gateway (group_example ! j)" by arith
  qed (use q k in simp_all)
  then show ?thesis
    using group_opens_range [OF h] h m e q
    by (simp add: k g)
qed

text \<open>
  C3, as the code has it.  The scan never asks whether the step it stands at is a
  gateway: a gateway that is the first step and carries an \<open>sla\<close> of its own starts a
  range.
\<close>

theorem gateway_with_sla_owns_range:
  "sla_merges gateway_owner_example = [(0, 0, Some ''4h'')]
   \<and> is_gateway (gateway_owner_example ! 0)"
  by (simp add: gateway_owner_example_ranges)
     (simp add: gateway_owner_example_def gateway_step_def plain_step_def)

text \<open>
  C3, amended.  No range of the planner starts at a gateway step other than the first
  step: the scan tests only \<open>sla\<close> and \<open>sla_group\<close> of the step it stands on, and after
  the first step it only ever stands on steps that are no gateways.  So a gateway at
  index 0 that carries an \<open>sla\<close> or \<open>sla_group\<close> starts a range, and no other gateway
  does.  A gateway inside a range lies behind the range's start; when the range starts at
  a step that is no gateway, the nearest step before the gateway that is no gateway lies
  in the same range.  Every index of a range behind its start holds a gateway or a step
  with the range's group key, and the step right after a range is never a gateway.
\<close>

theorem only_first_gateway_owns_range:
  assumes "(s, e, v) \<in> set (sla_merges steps)"
  shows "s < length steps
       \<and> (s = 0 \<or> \<not> is_gateway (steps ! s))
       \<and> (truthy (sla (steps ! s)) \<or> truthy (sla_group (steps ! s)))
       \<and> (\<forall>k. 0 < k \<and> is_gateway (steps ! k) \<and> s \<le> k \<and> k \<le> e \<longrightarrow> s < k)
       \<and> (\<forall>k p. \<not> is_gateway (steps ! s) \<and> s \<le> k \<and> k \<le> e \<and> is_gateway (steps ! k)
                \<and> p < k \<and> \<not> is_gateway (steps ! p)
                \<and> (\<forall>j. p < j \<and> j < k \<longrightarrow> is_gateway (steps ! j))
              \<longrightarrow> s \<le> p \<and> p \<le> e)
       \<and> (\<forall>k. s < k \<and> k \<le> e \<longrightarrow>
              is_gateway (steps ! k) \<or> sla_group (steps ! k) = sla_group (steps ! s))
       \<and> (Suc e < length steps \<longrightarrow> \<not> is_gateway (steps ! Suc e))"
proof -
  from assms have m: "s < length steps" "owner (steps ! s)" "e = range_end steps s"
    using sla_merges_from_member [of s e v steps 0] by (simp_all add: sla_merges_def)
  have start: "s = 0 \<or> \<not> is_gateway (steps ! s)"
    using sla_merges_from_start [of s e v steps 0] assms by (simp add: sla_merges_def)
  have behind: "\<forall>k. 0 < k \<and> is_gateway (steps ! k) \<and> s \<le> k \<and> k \<le> e \<longrightarrow> s < k"
    using start by (metis le_neq_implies_less)
  have nearest: "\<forall>k p. \<not> is_gateway (steps ! s) \<and> s \<le> k \<and> k \<le> e \<and> is_gateway (steps ! k)
        \<and> p < k \<and> \<not> is_gateway (steps ! p)
        \<and> (\<forall>j. p < j \<and> j < k \<longrightarrow> is_gateway (steps ! j))
      \<longrightarrow> s \<le> p \<and> p \<le> e"
  proof (intro allI impI, elim conjE)
    fix k p
    assume ngs: "\<not> is_gateway (steps ! s)" and sk: "s \<le> k" and ke: "k \<le> e"
      and gk: "is_gateway (steps ! k)" and pk: "p < k" and ngp: "\<not> is_gateway (steps ! p)"
      and gws: "\<forall>j. p < j \<and> j < k \<longrightarrow> is_gateway (steps ! j)"
    have "s \<noteq> k" using ngs gk by auto
    then have "s < k" using sk by simp
    then have "\<not> p < s" using gws ngs by blast
    then show "s \<le> p \<and> p \<le> e" using pk ke by simp
  qed
  have inside: "\<forall>k. s < k \<and> k \<le> e \<longrightarrow>
      is_gateway (steps ! k) \<or> sla_group (steps ! k) = sla_group (steps ! s)"
    using range_end_all [of s _ steps] m(3) by blast
  have after: "Suc e < length steps \<longrightarrow> \<not> is_gateway (steps ! Suc e)"
    using range_end_stop [of steps s] m(3) by blast
  have own: "truthy (sla (steps ! s)) \<or> truthy (sla_group (steps ! s))"
    using m(2) by (simp add: owner_def)
  show ?thesis
    using m(1) start own behind nearest inside after by blast
qed

theorem only_first_gateway_owns_range_witness:
  "(0, 1, Some ''4h'') \<in> set (sla_merges two_ranges_example)
   \<and> (2, 2, Some ''2h'') \<in> set (sla_merges two_ranges_example)
   \<and> \<not> is_gateway (two_ranges_example ! 0)
   \<and> is_gateway (two_ranges_example ! 1)
   \<and> \<not> is_gateway (two_ranges_example ! 2)
   \<and> truthy (sla (two_ranges_example ! 2))
   \<and> (0, 0, Some ''4h'') \<in> set (sla_merges gateway_owner_example)
   \<and> is_gateway (gateway_owner_example ! 0)
   \<and> truthy (sla (gateway_owner_example ! 0))"
proof -
  have h: "(0, 1, Some ''4h'') \<in> set (sla_merges two_ranges_example)"
    "(2, 2, Some ''2h'') \<in> set (sla_merges two_ranges_example)"
    by (simp_all add: two_ranges_example_ranges)
  have g: "(0, 0, Some ''4h'') \<in> set (sla_merges gateway_owner_example)"
    by (simp add: gateway_owner_example_ranges)
  have f: "\<not> is_gateway (two_ranges_example ! 0)" "is_gateway (two_ranges_example ! 1)"
    "is_gateway (gateway_owner_example ! 0)"
    by (simp_all add: two_ranges_example_def gateway_owner_example_def plain_step_def
        gateway_step_def)
  have two: "(2::nat) \<noteq> 0" by simp
  have "\<not> is_gateway (two_ranges_example ! 2)" "truthy (sla (two_ranges_example ! 2))"
    using only_first_gateway_owns_range [OF h(2)] two
      sla_merges_from_member [of 2 2 "Some ''2h''" two_ranges_example 0] h(2)
    by (auto simp: two_ranges_example_def plain_step_def truthy_def)
  moreover have "truthy (sla (gateway_owner_example ! 0))"
    using only_first_gateway_owns_range [OF g]
    by (simp add: gateway_owner_example_def gateway_step_def plain_step_def truthy_def)
  ultimately show ?thesis using h g f by simp
qed

text \<open>
  C4.  The planner's ranges are pairwise disjoint: two ranges at different places of
  the result have no step index in common.  Each is a non-empty interval of step
  indices, and an earlier range of the result ends before a later one starts.
\<close>

theorem sla_merges_disjoint:
  assumes "a < length (sla_merges steps)"
    and "b < length (sla_merges steps)"
    and "a \<noteq> b"
    and "sla_merges steps ! a = (s1, e1, v1)"
    and "sla_merges steps ! b = (s2, e2, v2)"
  shows "{s1..e1} \<inter> {s2..e2} = {}
       \<and> s1 \<le> e1 \<and> e1 < length steps \<and> s2 \<le> e2 \<and> e2 < length steps
       \<and> (a < b \<longrightarrow> e1 < s2)"
proof -
  have sorted: "ranges_from 0 (sla_merges steps)"
    by (simp add: sla_merges_def sla_merges_from_ranges)
  have in1: "(s1, e1, v1) \<in> set (sla_merges steps)"
    using assms(1,4) by (metis nth_mem)
  have in2: "(s2, e2, v2) \<in> set (sla_merges steps)"
    using assms(2,5) by (metis nth_mem)
  have b1: "s1 \<le> e1" "e1 < length steps"
    using sla_merges_from_member [of s1 e1 v1 steps 0] in1 range_end_bounds [of s1 steps]
    by (simp_all add: sla_merges_def)
  have b2: "s2 \<le> e2" "e2 < length steps"
    using sla_merges_from_member [of s2 e2 v2 steps 0] in2 range_end_bounds [of s2 steps]
    by (simp_all add: sla_merges_def)
  have lt: "a < b \<Longrightarrow> e1 < s2"
    using ranges_from_nth [OF sorted, of a b] assms(2,4,5) by simp
  have gt: "b < a \<Longrightarrow> e2 < s1"
    using ranges_from_nth [OF sorted, of b a] assms(1,4,5) by simp
  have "{s1..e1} \<inter> {s2..e2} = {}"
    using lt gt assms(3) by (cases "a < b") auto
  then show ?thesis using b1 b2 lt by simp
qed

theorem sla_merges_disjoint_witness:
  "(0::nat) < length (sla_merges two_ranges_example)
   \<and> (1::nat) < length (sla_merges two_ranges_example)
   \<and> (0::nat) \<noteq> 1
   \<and> sla_merges two_ranges_example ! 0 = (0, 1, Some ''4h'')
   \<and> sla_merges two_ranges_example ! 1 = (2, 2, Some ''2h'')
   \<and> {0..1::nat} \<inter> {2..2} = {}"
proof -
  have h: "0 < length (sla_merges two_ranges_example)" "1 < length (sla_merges two_ranges_example)"
    "(0::nat) \<noteq> 1"
    "sla_merges two_ranges_example ! 0 = (0, 1, Some ''4h'')"
    "sla_merges two_ranges_example ! 1 = (2, 2, Some ''2h'')"
    by (simp_all add: two_ranges_example_ranges)
  show ?thesis
    using sla_merges_disjoint [OF h] h by simp
qed



section \<open>Document model\<close>

text \<open>
  The part of the document the builder reads and writes: \<open>doc.tables\<close> is a list of
  tables, a table has its grid columns and its rows, a row its cells, a cell its
  paragraphs and the \<open>w:shd\<close> and \<open>w:vMerge\<close> elements of its \<open>tcPr\<close>, a paragraph its
  alignment and runs.  The builder only ever gives a run a string as its text (\<open>Some\<close>
  of it here): the document library writes an assigned text character by character, so
  that assigning \<open>None\<close> to \<open>run.text\<close> raises \<open>TypeError\<close>.  The paragraph style's
  font, set through \<open>para.style.font\<close>, is kept with the paragraph.
\<close>

datatype error = NoTables | IndexError | TypeError

datatype align = LEFT | CENTER | JUSTIFY

record run =
  run_text :: "string option"
  font_name :: "string option"
  font_size_pt :: "nat option"
  font_bold :: "bool option"
  font_color :: "(nat \<times> nat \<times> nat) option"

record docx_paragraph =
  par_alignment :: "align option"
  runs :: "run list"
  style_font :: "(string \<times> nat) option"

datatype tc_prop = Shd string string | VMerge "string option"

record cell =
  cell_paragraphs :: "docx_paragraph list"
  tcPr :: "tc_prop list"

type_synonym row = "cell list"

record table =
  columns :: nat
  rows :: "row list"

definition avenir :: string where
  "avenir = ''Avenir LT Std 45 Book''"

text \<open>A run as \<open>add_run(text)\<close> and \<open>cell.text = text\<close> make it: no font set.\<close>

definition new_run :: "string option \<Rightarrow> run" where
  "new_run t = \<lparr>run_text = t, font_name = None, font_size_pt = None, font_bold = None,
     font_color = None\<rparr>"

definition empty_paragraph :: docx_paragraph where
  "empty_paragraph = \<lparr>par_alignment = None, runs = [], style_font = None\<rparr>"

text \<open>A cell of a row made by \<open>table.add_row()\<close>: one empty paragraph.\<close>

definition new_cell :: cell where
  "new_cell = \<lparr>cell_paragraphs = [empty_paragraph], tcPr = []\<rparr>"

text \<open>\<open>cell.text = t\<close>: the content becomes one paragraph holding one run with text \<open>t\<close>.\<close>

definition set_text :: "string \<Rightarrow> cell \<Rightarrow> cell" where
  "set_text t c = c\<lparr>cell_paragraphs := [empty_paragraph\<lparr>runs := [new_run (Some t)]\<rparr>]\<rparr>"

definition add_run :: "run \<Rightarrow> docx_paragraph \<Rightarrow> docx_paragraph" where
  "add_run r p = p\<lparr>runs := runs p @ [r]\<rparr>"

text \<open>\<open>table.add_row()\<close>: a row of one new cell per grid column, appended.\<close>

definition add_row :: "table \<Rightarrow> table" where
  "add_row t = t\<lparr>rows := rows t @ [replicate (columns t) new_cell]\<rparr>"

text \<open>
  \<open>for row_idx in range(len(table.rows) - 1, keep - 1, -1): remove table.rows[row_idx]\<close>:
  the rows from the last down to index \<open>keep\<close> are removed one by one.
\<close>

definition remove_row :: "nat \<Rightarrow> row list \<Rightarrow> row list" where
  "remove_row row_idx rs = take row_idx rs @ drop (Suc row_idx) rs"

definition clear_rows :: "nat \<Rightarrow> table \<Rightarrow> table" where
  "clear_rows keep t = t\<lparr>rows := fold remove_row (rev [keep..<length (rows t)]) (rows t)\<rparr>"

text \<open>Errors of the build are values; \<open>and_then\<close> runs the next statement unless one was raised.\<close>

definition and_then :: "error + 'a \<Rightarrow> ('a \<Rightarrow> error + 'b) \<Rightarrow> error + 'b" where
  "and_then r f = (case r of Inl e \<Rightarrow> Inl e | Inr x \<Rightarrow> f x)"

text \<open>\<open>cells[i]\<close> read and written in place; \<open>IndexError\<close> when the row is too short.\<close>

definition update_cell :: "nat \<Rightarrow> (cell \<Rightarrow> error + cell) \<Rightarrow> row \<Rightarrow> error + row" where
  "update_cell i f cells =
     (if i < length cells
      then and_then (f (cells ! i)) (\<lambda>c. Inr (cells[i := c]))
      else Inl IndexError)"

text \<open>\<open>cell.paragraphs[0]\<close> read and written in place.\<close>

definition update_paragraph0 :: "(docx_paragraph \<Rightarrow> docx_paragraph) \<Rightarrow> cell \<Rightarrow> error + cell" where
  "update_paragraph0 f c =
     (case cell_paragraphs c of
        [] \<Rightarrow> Inl IndexError
      | p # ps \<Rightarrow> Inr (c\<lparr>cell_paragraphs := f p # ps\<rparr>))"

section \<open>Row renderer\<close>

text \<open>Cell 0: the reference number, centred; a bold red run of size 14 when \<open>ref\<close> is non-empty.\<close>

definition render_ref_cell :: "step \<Rightarrow> cell \<Rightarrow> error + cell" where
  "render_ref_cell step ref_cell =
     update_paragraph0
       (\<lambda>ref_para.
          let ref_para = ref_para\<lparr>par_alignment := Some CENTER\<rparr>
          in if ref step \<noteq> []
             then add_run \<lparr>run_text = Some (ref step), font_name = Some avenir,
                    font_size_pt = Some 14, font_bold = Some True,
                    font_color = Some (255, 0, 0)\<rparr> ref_para
             else ref_para)
       (set_text [] ref_cell)"

text \<open>
  One paragraph of the description: \<open>CENTER\<close> and \<open>JUSTIFY\<close> are taken as they are, any
  other alignment is \<open>LEFT\<close>; a run is added only when the text is non-empty.
\<close>

definition render_paragraph :: "para_data \<Rightarrow> docx_paragraph" where
  "render_paragraph para_data =
     (let para = empty_paragraph\<lparr>par_alignment :=
            Some (if alignment para_data = ''CENTER'' then CENTER
                  else if alignment para_data = ''JUSTIFY'' then JUSTIFY
                  else LEFT)\<rparr>
      in if para_text para_data \<noteq> []
         then add_run \<lparr>run_text = Some (para_text para_data), font_name = Some avenir,
                font_size_pt = Some (font_size para_data), font_bold = Some (bold para_data),
                font_color = Some (0, 0, 0)\<rparr> para
         else para)"

text \<open>
  Cell 1: the text is cleared, the default paragraph removed, and one paragraph added
  per entry of \<open>step['paragraphs']\<close>.
\<close>

definition render_desc_cell :: "step \<Rightarrow> cell \<Rightarrow> error + cell" where
  "render_desc_cell step desc_cell =
     (let c = set_text [] desc_cell;
          c = (if cell_paragraphs c \<noteq> [] then c\<lparr>cell_paragraphs := tl (cell_paragraphs c)\<rparr> else c)
      in Inr (fold (\<lambda>para_data c. c\<lparr>cell_paragraphs := cell_paragraphs c @ [render_paragraph para_data]\<rparr>)
                (paragraphs step) c))"

definition raci_map :: "nat \<Rightarrow> string option" where
  "raci_map i =
     (if i = 2 then Some ''responsible'' else if i = 3 then Some ''accountable''
      else if i = 4 then Some ''consulted'' else if i = 5 then Some ''informed'' else None)"

text \<open>\<open>raci.get(key, 'N/A') or 'N/A'\<close>.\<close>

definition raci_value :: "(string \<rightharpoonup> string option) \<Rightarrow> string \<Rightarrow> string" where
  "raci_value raci_dict key =
     (case raci_dict key of
        None \<Rightarrow> ''N/A''
      | Some None \<Rightarrow> ''N/A''
      | Some (Some v) \<Rightarrow> if v = [] then ''N/A'' else v)"

definition run9 :: "string \<Rightarrow> run" where
  "run9 t = \<lparr>run_text = Some t, font_name = Some avenir, font_size_pt = Some 9,
     font_bold = None, font_color = None\<rparr>"

text \<open>Cells 2 to 6: the four RACI cells and the SLA cell, which is left blank.\<close>

definition render_raci_sla_cell :: "(string \<rightharpoonup> string option) \<Rightarrow> nat \<Rightarrow> cell \<Rightarrow> error + cell" where
  "render_raci_sla_cell raci_dict i c =
     update_paragraph0
       (\<lambda>para.
          let para = para\<lparr>par_alignment := Some CENTER, style_font := Some (avenir, 9)\<rparr>
          in if i = 6 then add_run (run9 []) para
             else (case raci_map i of
                     Some key \<Rightarrow> add_run (run9 (raci_value raci_dict key)) para
                   | None \<Rightarrow> para))
       (set_text [] c)"

fun render_raci_sla :: "(string \<rightharpoonup> string option) \<Rightarrow> nat list \<Rightarrow> row \<Rightarrow> error + row" where
  "render_raci_sla raci_dict [] cells = Inr cells"
| "render_raci_sla raci_dict (i # is) cells =
     and_then (update_cell i (render_raci_sla_cell raci_dict i) cells) (render_raci_sla raci_dict is)"

text \<open>Gateway shading: every cell of the row but the SLA cell gets the \<open>D9D9D9\<close> fill.\<close>

definition is_shd :: "tc_prop \<Rightarrow> bool" where
  "is_shd p = (case p of Shd fill val \<Rightarrow> True | VMerge val \<Rightarrow> False)"

definition set_shading :: "string \<Rightarrow> cell \<Rightarrow> cell" where
  "set_shading fill c = c\<lparr>tcPr := filter (\<lambda>p. \<not> is_shd p) (tcPr c) @ [Shd fill ''clear'']\<rparr>"

definition shade_gateway_row :: "row \<Rightarrow> row" where
  "shade_gateway_row cells =
     map (\<lambda>(cell_idx, cell). if cell_idx = 6 then cell else set_shading ''D9D9D9'' cell)
       (zip [0..<length cells] cells)"

text \<open>\<open>step.get('raci', {})\<close>.\<close>

definition step_raci :: "step \<Rightarrow> (string \<rightharpoonup> string option)" where
  "step_raci step = (case raci step of None \<Rightarrow> Map.empty | Some r \<Rightarrow> r)"

text \<open>The body of \<open>for step in steps\<close>, on the cells of the row just added.\<close>

definition render_row :: "step \<Rightarrow> row \<Rightarrow> error + row" where
  "render_row step cells =
     and_then (update_cell 0 (render_ref_cell step) cells) (\<lambda>cells.
     and_then (update_cell 1 (render_desc_cell step) cells) (\<lambda>cells.
     and_then (render_raci_sla (step_raci step) [2..<7] cells) (\<lambda>cells.
     Inr (if is_gateway step then shade_gateway_row cells else cells))))"

text \<open>
  \<open>for step in steps\<close>: a row is added to the table and its cells are rendered in
  place.
\<close>

fun render_steps :: "step list \<Rightarrow> table \<Rightarrow> error + table" where
  "render_steps [] t = Inr t"
| "render_steps (step # steps) t =
     (let t = add_row t;
          new_row = last (rows t)
      in and_then (render_row step new_row)
           (\<lambda>cells. render_steps steps (t\<lparr>rows := butlast (rows t) @ [cells]\<rparr>)))"

section \<open>Merge applier\<close>

text \<open>
  The body of \<open>for row_offset in range(merge_start, merge_end + 1)\<close> on the SLA cell of
  the row: the \<open>F2F2F2\<close> fill, the \<open>w:vMerge\<close> element when the range has several rows
  (with \<open>val = restart\<close> on the first), and the value, written to the first run of the
  first row's cell when that paragraph has a run.  The value of a range is \<open>None\<close> when
  the range was opened at a step with an \<open>sla_group\<close> and no \<open>sla\<close>; writing it raises
  \<open>TypeError\<close>.
\<close>

definition apply_sla_cell :: "merge_range \<Rightarrow> nat \<Rightarrow> cell \<Rightarrow> error + cell" where
  "apply_sla_cell m row_offset sla_cell =
     (case m of (merge_start, merge_end, sla_value) \<Rightarrow>
        let c = set_shading ''F2F2F2'' sla_cell;
            c = (if merge_end > merge_start
                 then c\<lparr>tcPr := tcPr c @ [VMerge (if row_offset = merge_start then Some ''restart'' else None)]\<rparr>
                 else c)
        in if row_offset = merge_start
           then (case cell_paragraphs c of
                   [] \<Rightarrow> Inl IndexError
                 | p # ps \<Rightarrow>
                     (case runs p of
                        [] \<Rightarrow> Inr c
                      | r # rs \<Rightarrow>
                          (case sla_value of
                             None \<Rightarrow> Inl TypeError
                           | Some t \<Rightarrow>
                               Inr (c\<lparr>cell_paragraphs :=
                                      p\<lparr>runs := r\<lparr>run_text := Some t\<rparr> # rs\<rparr> # ps\<rparr>))))
           else Inr c)"

text \<open>
  The rows of one range; the loop breaks at the first row index past the table.  The
  SLA cell of a row is read at index 6 of the row before anything is written to it, and
  the planner's ranges visit a row once.
\<close>

fun apply_range :: "merge_range \<Rightarrow> nat list \<Rightarrow> row list \<Rightarrow> error + row list" where
  "apply_range m [] rs = Inr rs"
| "apply_range m (row_offset # offsets) rs =
     (let table_row_idx = row_offset + 1
      in if table_row_idx \<ge> length rs then Inr rs
         else and_then (update_cell 6 (apply_sla_cell m row_offset) (rs ! table_row_idx))
                (\<lambda>cells. apply_range m offsets (rs[table_row_idx := cells])))"

fun apply_sla_merges :: "merge_range list \<Rightarrow> row list \<Rightarrow> error + row list" where
  "apply_sla_merges [] rs = Inr rs"
| "apply_sla_merges ((merge_start, merge_end, sla_value) # ms) rs =
     and_then (apply_range (merge_start, merge_end, sla_value) [merge_start..<merge_end + 1] rs)
       (apply_sla_merges ms)"

section \<open>Document assembler\<close>

text \<open>
  The context of one build.  The lists are read with \<open>context.get(key, [])\<close>; the
  fields of their records with \<open>.get(key, '')\<close>, so an absent field is \<open>None\<close> here
  and the empty string in the document.
\<close>

record abbreviation_record =
  abbrev_term :: "string option"
  abbrev_definition :: "string option"

record reference_record =
  reference_id :: "string option"
  reference_title :: "string option"

record policy_record =
  policy_text :: "string option"

record build_context =
  ctx_steps :: "step list"
  abbreviations_list :: "abbreviation_record list"
  references_list :: "reference_record list"
  general_policies_list :: "policy_record list"

definition get_or_empty :: "string option \<Rightarrow> string" where
  "get_or_empty v = (case v of None \<Rightarrow> [] | Some s \<Rightarrow> s)"

text \<open>The front matter: every run of the tables 0 to 5 gets the font and the size 12.\<close>

definition fix_table_fonts :: "table \<Rightarrow> table" where
  "fix_table_fonts t =
     t\<lparr>rows :=
         map (map (\<lambda>c. c\<lparr>cell_paragraphs :=
                 map (\<lambda>p. p\<lparr>runs := map (\<lambda>r. r\<lparr>font_name := Some avenir, font_size_pt := Some 12\<rparr>)
                                        (runs p)\<rparr>)
                   (cell_paragraphs c)\<rparr>))
           (rows t)\<rparr>"

definition fix_front_matter :: "table list \<Rightarrow> table list" where
  "fix_front_matter tables =
     map (\<lambda>(table_idx, t). if table_idx < 6 then fix_table_fonts t else t)
       (zip [0..<length tables] tables)"

text \<open>
  \<open>for idx, cell in enumerate(row.cells)\<close>: the first run of the first paragraph of
  each cell, when there is one, gets the font and the size 12, and is bold in column 0
  when \<open>bold_first\<close> holds.
\<close>

definition format_cell :: "bool \<Rightarrow> cell \<Rightarrow> error + cell" where
  "format_cell make_bold c =
     update_paragraph0
       (\<lambda>para. case runs para of
            [] \<Rightarrow> para
          | r # rs \<Rightarrow>
              para\<lparr>runs :=
                (let r = r\<lparr>font_name := Some avenir, font_size_pt := Some 12\<rparr>
                 in if make_bold then r\<lparr>font_bold := Some True\<rparr> else r) # rs\<rparr>)
       c"

fun format_cells :: "bool \<Rightarrow> nat \<Rightarrow> row \<Rightarrow> error + row" where
  "format_cells bold_first idx [] = Inr []"
| "format_cells bold_first idx (c # cs) =
     and_then (format_cell (bold_first \<and> idx = 0) c) (\<lambda>c.
     and_then (format_cells bold_first (idx + 1) cs) (\<lambda>cs. Inr (c # cs)))"

text \<open>One row of the abbreviations or the references table.\<close>

definition add_pair_row :: "bool \<Rightarrow> string \<Rightarrow> string \<Rightarrow> table \<Rightarrow> error + table" where
  "add_pair_row bold_first a b t =
     (let t = add_row t;
          cells = last (rows t)
      in and_then (update_cell 0 (\<lambda>c. Inr (set_text a c)) cells) (\<lambda>cells.
         and_then (update_cell 1 (\<lambda>c. Inr (set_text b c)) cells) (\<lambda>cells.
         and_then (format_cells bold_first 0 cells) (\<lambda>cells.
         Inr (t\<lparr>rows := butlast (rows t) @ [cells]\<rparr>)))))"

fun add_pair_rows :: "(string \<times> string) list \<Rightarrow> table \<Rightarrow> error + table" where
  "add_pair_rows [] t = Inr t"
| "add_pair_rows ((a, b) # items) t = and_then (add_pair_row True a b t) (add_pair_rows items)"

text \<open>
  The abbreviations and the references table: the rows behind the title and the header
  row are removed, then one row is added per record, or one \<open>N/A\<close> row when there is none.
\<close>

definition populate_pairs :: "(string \<times> string) list \<Rightarrow> table \<Rightarrow> error + table" where
  "populate_pairs items t =
     (let t = clear_rows 2 t
      in if items \<noteq> [] then add_pair_rows items t
         else add_pair_row False ''N/A'' ''N/A'' t)"

text \<open>\<open>str(idx)\<close> of a natural number.\<close>

definition digit_char :: "nat \<Rightarrow> char" where
  "digit_char d = char_of (48 + d)"

function str :: "nat \<Rightarrow> string" where
  "str n = (if n < 10 then [digit_char n] else str (n div 10) @ [digit_char (n mod 10)])"
  by pat_completeness auto
termination
  by (relation "measure (\<lambda>n. n)") auto

declare str.simps [simp del]

definition run14 :: "string \<Rightarrow> run" where
  "run14 t = \<lparr>run_text = Some t, font_name = Some avenir, font_size_pt = Some 14,
     font_bold = Some True, font_color = Some (255, 0, 0)\<rparr>"

definition run12 :: "string \<Rightarrow> run" where
  "run12 t = \<lparr>run_text = Some t, font_name = Some avenir, font_size_pt = Some 12,
     font_bold = Some True, font_color = None\<rparr>"

text \<open>One row of the general policies table: the reference cell and the policy text.\<close>

definition add_policy_row :: "string \<Rightarrow> string \<Rightarrow> table \<Rightarrow> error + table" where
  "add_policy_row a b t =
     (let t = add_row t;
          cells = last (rows t)
      in and_then (update_cell 0
            (\<lambda>ref_cell. update_paragraph0
               (\<lambda>ref_para. add_run (run14 a) (ref_para\<lparr>par_alignment := Some CENTER\<rparr>))
               (set_text [] ref_cell)) cells) (\<lambda>cells.
         and_then (update_cell 1
            (\<lambda>text_cell. update_paragraph0 (add_run (run12 b)) (set_text [] text_cell)) cells)
           (\<lambda>cells.
         Inr (t\<lparr>rows := butlast (rows t) @ [cells]\<rparr>))))"

fun add_policy_rows :: "nat \<Rightarrow> policy_record list \<Rightarrow> table \<Rightarrow> error + table" where
  "add_policy_rows idx [] t = Inr t"
| "add_policy_rows idx (p # policies) t =
     and_then (add_policy_row (str idx) (get_or_empty (policy_text p)) t)
       (add_policy_rows (idx + 1) policies)"

definition populate_policies :: "policy_record list \<Rightarrow> table \<Rightarrow> error + table" where
  "populate_policies policies t =
     (let t = clear_rows 1 t
      in if policies \<noteq> [] then add_policy_rows 1 policies t
         else add_policy_row ''N/A'' ''N/A'' t)"

text \<open>\<open>if len(doc.tables) > i: ...\<close> on the table at index \<open>i\<close>, in place.\<close>

definition on_table :: "nat \<Rightarrow> (table \<Rightarrow> error + table) \<Rightarrow> table list \<Rightarrow> error + table list" where
  "on_table i f tables =
     (if length tables > i
      then and_then (f (tables ! i)) (\<lambda>t. Inr (tables[i := t]))
      else Inr tables)"

text \<open>
  The two cell texts of each row of the abbreviations table,
  \<open>abbrev.get('term', '')\<close> and \<open>abbrev.get('definition', '')\<close>, and of the references
  table, \<open>ref.get('id', '')\<close> and \<open>ref.get('title', '')\<close>.
\<close>

definition abbreviation_pairs :: "build_context \<Rightarrow> (string \<times> string) list" where
  "abbreviation_pairs ctx =
     map (\<lambda>abbrev. (get_or_empty (abbrev_term abbrev), get_or_empty (abbrev_definition abbrev)))
       (abbreviations_list ctx)"

definition reference_pairs :: "build_context \<Rightarrow> (string \<times> string) list" where
  "reference_pairs ctx =
     map (\<lambda>r. (get_or_empty (reference_id r), get_or_empty (reference_title r)))
       (references_list ctx)"

text \<open>
  The body of the \<open>try\<close> block from \<open>doc.tables\<close> on, with the tables of the rendered
  template as input: the document, or the exception raised.
\<close>

definition build_doc :: "build_context \<Rightarrow> table list \<Rightarrow> error + table list" where
  "build_doc ctx tables =
     (if tables = [] then Inl NoTables
      else
        let tables = fix_front_matter tables
        in and_then (on_table 3 (populate_pairs (abbreviation_pairs ctx)) tables) (\<lambda>tables.
           and_then (on_table 4 (populate_pairs (reference_pairs ctx)) tables) (\<lambda>tables.
           if length tables \<le> 6 then Inl IndexError
           else
             let table = clear_rows 1 (tables ! 6);
                 steps = ctx_steps ctx
             in and_then (render_steps steps table) (\<lambda>table.
                and_then (apply_sla_merges (sla_merges steps) (rows table)) (\<lambda>rs.
                on_table 7 (populate_policies (general_policies_list ctx))
                  (tables[6 := table\<lparr>rows := rs\<rparr>]))))))"

text \<open>\<open>except Exception: return None\<close>.\<close>

definition create_word_doc_from_template :: "build_context \<Rightarrow> table list \<Rightarrow> table list option" where
  "create_word_doc_from_template ctx tables =
     (case build_doc ctx tables of Inl e \<Rightarrow> None | Inr doc \<Rightarrow> Some doc)"

section \<open>The rendered row in closed form\<close>

lemma and_then_Inr [simp]: "and_then (Inr x) f = f x"
  by (simp add: and_then_def)

lemma and_then_Inl [simp]: "and_then (Inl e) f = Inl e"
  by (simp add: and_then_def)

lemma upt_2_7: "[2..<7] = [2, 3, 4, 5, 6::nat]"
  by (simp add: upt_rec)

lemma replicate_7: "replicate (7 + m) c = c # c # c # c # c # c # c # replicate m c"
  by (simp add: numeral_eq_Suc)

text \<open>The cells the renderer makes, before the gateway shading.\<close>

definition ref_cell_of :: "step \<Rightarrow> cell" where
  "ref_cell_of step =
     \<lparr>cell_paragraphs =
        [\<lparr>par_alignment = Some CENTER,
          runs = new_run (Some []) # (if ref step \<noteq> [] then [run14 (ref step)] else []),
          style_font = None\<rparr>],
      tcPr = []\<rparr>"

definition desc_cell_of :: "step \<Rightarrow> cell" where
  "desc_cell_of step = \<lparr>cell_paragraphs = map render_paragraph (paragraphs step), tcPr = []\<rparr>"

definition raci_cell_of :: "step \<Rightarrow> string \<Rightarrow> cell" where
  "raci_cell_of step key =
     \<lparr>cell_paragraphs =
        [\<lparr>par_alignment = Some CENTER,
          runs = [new_run (Some []),
                  run9 (raci_value (step_raci step) key)],
          style_font = Some (avenir, 9)\<rparr>],
      tcPr = []\<rparr>"

definition blank_sla_cell :: cell where
  "blank_sla_cell =
     \<lparr>cell_paragraphs =
        [\<lparr>par_alignment = Some CENTER, runs = [new_run (Some []), run9 []],
          style_font = Some (avenir, 9)\<rparr>],
      tcPr = []\<rparr>"

definition unshaded_row :: "nat \<Rightarrow> step \<Rightarrow> row" where
  "unshaded_row n step =
     [ref_cell_of step, desc_cell_of step, raci_cell_of step ''responsible'',
      raci_cell_of step ''accountable'', raci_cell_of step ''consulted'',
      raci_cell_of step ''informed'', blank_sla_cell] @ replicate (n - 7) new_cell"

lemma fold_add_paragraphs:
  "fold (\<lambda>para_data c. c\<lparr>cell_paragraphs := cell_paragraphs c @ [render_paragraph para_data]\<rparr>) ps c
   = c\<lparr>cell_paragraphs := cell_paragraphs c @ map render_paragraph ps\<rparr>"
  by (induction ps arbitrary: c) simp_all

lemma render_desc_cell_new: "render_desc_cell step new_cell = Inr (desc_cell_of step)"
  by (simp add: render_desc_cell_def set_text_def new_cell_def desc_cell_of_def fold_add_paragraphs)

lemma render_ref_cell_new: "render_ref_cell step new_cell = Inr (ref_cell_of step)"
  by (simp add: render_ref_cell_def set_text_def new_cell_def ref_cell_of_def update_paragraph0_def
      empty_paragraph_def add_run_def run14_def)

lemma render_raci_cell_new:
  "raci_map i = Some key \<Longrightarrow> i \<noteq> 6 \<Longrightarrow>
   render_raci_sla_cell (step_raci step) i new_cell
     = Inr (raci_cell_of step key)"
  by (simp add: render_raci_sla_cell_def set_text_def new_cell_def raci_cell_of_def
      update_paragraph0_def empty_paragraph_def add_run_def)

lemma render_sla_cell_new: "render_raci_sla_cell r 6 new_cell = Inr blank_sla_cell"
  by (simp add: render_raci_sla_cell_def set_text_def new_cell_def blank_sla_cell_def
      update_paragraph0_def empty_paragraph_def add_run_def)

lemma render_row_unshaded:
  assumes "7 \<le> n"
  shows "render_row step (replicate n new_cell) =
     Inr (if is_gateway step then shade_gateway_row (unshaded_row n step) else unshaded_row n step)"
proof -
  obtain m where n: "n = 7 + m" using assms by (metis le_Suc_ex)
  show ?thesis
    by (simp add: n replicate_7 render_row_def update_cell_def upt_2_7 unshaded_row_def
        render_ref_cell_new render_desc_cell_new render_sla_cell_new
        render_raci_cell_new [of _ _ step] raci_map_def)
qed

lemma shade_gateway_row_length [simp]: "length (shade_gateway_row cells) = length cells"
  by (simp add: shade_gateway_row_def)

lemma shade_gateway_row_nth:
  "i < length cells \<Longrightarrow>
   shade_gateway_row cells ! i = (if i = 6 then cells ! i else set_shading ''D9D9D9'' (cells ! i))"
  by (simp add: shade_gateway_row_def)

text \<open>The row the renderer makes for a step on a table of \<open>n\<close> columns.\<close>

definition rendered_row :: "nat \<Rightarrow> step \<Rightarrow> row" where
  "rendered_row n step =
     (if is_gateway step then shade_gateway_row (unshaded_row n step) else unshaded_row n step)"

lemma unshaded_row_length: "7 \<le> n \<Longrightarrow> length (unshaded_row n step) = n"
  by (simp add: unshaded_row_def)

lemma rendered_row_length: "7 \<le> n \<Longrightarrow> length (rendered_row n step) = n"
  by (simp add: rendered_row_def unshaded_row_length)

lemma rendered_row_sla: "7 \<le> n \<Longrightarrow> rendered_row n step ! 6 = blank_sla_cell"
  by (simp add: rendered_row_def shade_gateway_row_nth unshaded_row_length)
     (simp add: unshaded_row_def)

lemma render_row_rendered:
  "7 \<le> n \<Longrightarrow> render_row step (replicate n new_cell) = Inr (rendered_row n step)"
  by (simp add: render_row_unshaded rendered_row_def)

lemma render_steps_rendered:
  "7 \<le> columns t \<Longrightarrow>
   render_steps steps t = Inr (t\<lparr>rows := rows t @ map (rendered_row (columns t)) steps\<rparr>)"
proof (induction steps arbitrary: t)
  case Nil
  then show ?case by simp
next
  case (Cons step steps)
  let ?t = "t\<lparr>rows := rows t @ [rendered_row (columns t) step]\<rparr>"
  have "render_steps steps ?t = Inr (?t\<lparr>rows := rows ?t @ map (rendered_row (columns ?t)) steps\<rparr>)"
    using Cons.prems by (intro Cons.IH) simp
  then show ?case
    using Cons.prems by (simp add: add_row_def render_row_rendered)
qed

lemma update_cell_frame:
  "update_cell i f cells = Inr cells' \<Longrightarrow>
   length cells' = length cells \<and> (\<forall>c. c \<noteq> i \<longrightarrow> cells' ! c = cells ! c)"
  by (auto simp: update_cell_def and_then_def split: if_splits sum.splits)

lemma apply_range_frame:
  "apply_range m offsets rs = Inr rs' \<Longrightarrow>
   length rs' = length rs \<and>
   (\<forall>r. length (rs' ! r) = length (rs ! r) \<and> (\<forall>c. c \<noteq> 6 \<longrightarrow> rs' ! r ! c = rs ! r ! c))"
proof (induction offsets arbitrary: rs)
  case Nil
  then show ?case by simp
next
  case (Cons row_offset offsets)
  show ?case
  proof (cases "Suc row_offset < length rs")
    case False
    then show ?thesis using Cons.prems by simp
  next
    case True
    then obtain cells where u: "update_cell 6 (apply_sla_cell m row_offset) (rs ! Suc row_offset) = Inr cells"
      and a: "apply_range m offsets (rs[Suc row_offset := cells]) = Inr rs'"
      using Cons.prems by (auto simp: and_then_def split: sum.splits)
    note f = update_cell_frame [OF u]
    note ih = Cons.IH [OF a]
    have "\<And>r. length (rs[Suc row_offset := cells] ! r) = length (rs ! r) \<and>
        (\<forall>c. c \<noteq> 6 \<longrightarrow> rs[Suc row_offset := cells] ! r ! c = rs ! r ! c)"
      using f True by (metis nth_list_update_eq nth_list_update_neq)
    then show ?thesis using ih by simp
  qed
qed

lemma apply_sla_merges_frame:
  "apply_sla_merges ms rs = Inr rs' \<Longrightarrow>
   length rs' = length rs \<and>
   (\<forall>r. length (rs' ! r) = length (rs ! r) \<and> (\<forall>c. c \<noteq> 6 \<longrightarrow> rs' ! r ! c = rs ! r ! c))"
proof (induction ms arbitrary: rs)
  case Nil
  then show ?case by simp
next
  case (Cons m ms)
  obtain s e v where m: "m = (s, e, v)" by (cases m)
  from Cons.prems obtain rs1 where
    a: "apply_range (s, e, v) [s..<e + 1] rs = Inr rs1" and b: "apply_sla_merges ms rs1 = Inr rs'"
    by (auto simp: m and_then_def split: sum.splits)
  show ?case
    using apply_range_frame [OF a] Cons.IH [OF b] by simp
qed

lemma rendered_row_paragraphs:
  "i < n \<Longrightarrow> 7 \<le> n \<Longrightarrow>
   cell_paragraphs (rendered_row n step ! i) = cell_paragraphs (unshaded_row n step ! i)"
  by (simp add: rendered_row_def shade_gateway_row_nth unshaded_row_length set_shading_def)

lemma unshaded_row_desc: "unshaded_row n step ! Suc 0 = desc_cell_of step"
  by (simp add: unshaded_row_def)

lemma unshaded_row_raci:
  "raci_map i = Some key \<Longrightarrow> unshaded_row n step ! i = raci_cell_of step key"
  by (auto simp: raci_map_def unshaded_row_def split: if_splits)

lemma raci_map_less: "raci_map i = Some key \<Longrightarrow> i < 6"
  by (auto simp: raci_map_def split: if_splits)

lemma render_paragraph_alignment:
  "par_alignment (render_paragraph para_data) =
     Some (if alignment para_data = ''CENTER'' then CENTER
           else if alignment para_data = ''JUSTIFY'' then JUSTIFY else LEFT)"
  by (simp add: render_paragraph_def empty_paragraph_def add_run_def Let_def)

definition malformed_step :: step where
  "malformed_step =
     plain_step\<lparr>paragraphs := [\<lparr>para_text = ''x'', alignment = ''RIGHT'', font_size = 11, bold = False\<rparr>],
       raci := Some [''responsible'' \<mapsto> Some [], ''accountable'' \<mapsto> None]\<rparr>"

text \<open>
  C8.  On a row of a table with at least seven columns the renderer returns a row for
  every step, never an error.  A paragraph whose alignment is neither \<open>CENTER\<close> nor
  \<open>JUSTIFY\<close> is rendered left-aligned, and the cell of a RACI role whose value is
  absent, \<open>None\<close> or the empty string holds the run \<open>N/A\<close>.
\<close>

theorem render_row_degrades:
  assumes "7 \<le> n"
  shows "\<exists>cells. render_row step (replicate n new_cell) = Inr cells
       \<and> length cells = n
       \<and> length (cell_paragraphs (cells ! 1)) = length (paragraphs step)
       \<and> (\<forall>j. j < length (paragraphs step)
              \<and> alignment (paragraphs step ! j) \<noteq> ''CENTER''
              \<and> alignment (paragraphs step ! j) \<noteq> ''JUSTIFY''
            \<longrightarrow> par_alignment (cell_paragraphs (cells ! 1) ! j) = Some LEFT)
       \<and> (\<forall>i key. raci_map i = Some key
              \<and> (step_raci step key = None \<or> step_raci step key = Some None
                  \<or> step_raci step key = Some (Some []))
            \<longrightarrow> runs (cell_paragraphs (cells ! i) ! 0) = [new_run (Some []), run9 ''N/A''])"
proof -
  let ?cells = "rendered_row n step"
  have d: "cell_paragraphs (?cells ! 1) = map render_paragraph (paragraphs step)"
    using assms by (simp add: rendered_row_paragraphs unshaded_row_desc desc_cell_of_def)
  have al: "\<forall>j. j < length (paragraphs step)
        \<and> alignment (paragraphs step ! j) \<noteq> ''CENTER''
        \<and> alignment (paragraphs step ! j) \<noteq> ''JUSTIFY''
      \<longrightarrow> par_alignment (cell_paragraphs (?cells ! 1) ! j) = Some LEFT"
    using d by (simp add: render_paragraph_alignment)
  have ra: "\<forall>i key. raci_map i = Some key
        \<and> (step_raci step key = None \<or> step_raci step key = Some None
            \<or> step_raci step key = Some (Some []))
      \<longrightarrow> runs (cell_paragraphs (?cells ! i) ! 0) = [new_run (Some []), run9 ''N/A'']"
  proof (intro allI impI, elim conjE)
    fix i key
    assume m: "raci_map i = Some key"
      and v: "step_raci step key = None \<or> step_raci step key = Some None
        \<or> step_raci step key = Some (Some [])"
    have "i < n" using raci_map_less [OF m] assms by simp
    then have "cell_paragraphs (?cells ! i) = cell_paragraphs (raci_cell_of step key)"
      using assms by (simp add: rendered_row_paragraphs unshaded_row_raci [OF m])
    moreover have "raci_value (step_raci step) key = ''N/A''"
      using v by (auto simp: raci_value_def)
    ultimately show "runs (cell_paragraphs (?cells ! i) ! 0) = [new_run (Some []), run9 ''N/A'']"
      by (simp add: raci_cell_of_def)
  qed
  show ?thesis
    using render_row_rendered [OF assms, of step] rendered_row_length [OF assms, of step] d al ra
    by (intro exI [of _ ?cells]) simp
qed

theorem render_row_degrades_witness:
  "\<exists>cells. render_row malformed_step (replicate 7 new_cell) = Inr cells
     \<and> length cells = 7
     \<and> par_alignment (cell_paragraphs (cells ! 1) ! 0) = Some LEFT
     \<and> runs (cell_paragraphs (cells ! 2) ! 0) = [new_run (Some []), run9 ''N/A'']
     \<and> runs (cell_paragraphs (cells ! 3) ! 0) = [new_run (Some []), run9 ''N/A'']
     \<and> runs (cell_paragraphs (cells ! 4) ! 0) = [new_run (Some []), run9 ''N/A'']"
proof -
  have n: "(7::nat) \<le> 7" by simp
  have a: "0 < length (paragraphs malformed_step)"
    "alignment (paragraphs malformed_step ! 0) \<noteq> ''CENTER''"
    "alignment (paragraphs malformed_step ! 0) \<noteq> ''JUSTIFY''"
    by (simp_all add: malformed_step_def plain_step_def)
  have r: "raci_map 2 = Some ''responsible''" "raci_map 3 = Some ''accountable''"
    "raci_map 4 = Some ''consulted''"
    by (simp_all add: raci_map_def)
  have v: "step_raci malformed_step ''responsible'' = Some (Some [])"
    "step_raci malformed_step ''accountable'' = Some None"
    "step_raci malformed_step ''consulted'' = None"
    by (simp_all add: step_raci_def malformed_step_def plain_step_def)
  from render_row_degrades [OF n, of malformed_step] obtain cells where
    c: "render_row malformed_step (replicate 7 new_cell) = Inr cells" "length cells = 7"
    and al: "\<forall>j. j < length (paragraphs malformed_step)
        \<and> alignment (paragraphs malformed_step ! j) \<noteq> ''CENTER''
        \<and> alignment (paragraphs malformed_step ! j) \<noteq> ''JUSTIFY''
      \<longrightarrow> par_alignment (cell_paragraphs (cells ! 1) ! j) = Some LEFT"
    and ra: "\<forall>i key. raci_map i = Some key
        \<and> (step_raci malformed_step key = None \<or> step_raci malformed_step key = Some None
            \<or> step_raci malformed_step key = Some (Some []))
      \<longrightarrow> runs (cell_paragraphs (cells ! i) ! 0) = [new_run (Some []), run9 ''N/A'']"
    by blast
  have "par_alignment (cell_paragraphs (cells ! 1) ! 0) = Some LEFT"
    using al a by blast
  moreover have "runs (cell_paragraphs (cells ! 2) ! 0) = [new_run (Some []), run9 ''N/A'']"
    using ra r(1) v(1) by blast
  moreover have "runs (cell_paragraphs (cells ! 3) ! 0) = [new_run (Some []), run9 ''N/A'']"
    using ra r(2) v(2) by blast
  moreover have "runs (cell_paragraphs (cells ! 4) ! 0) = [new_run (Some []), run9 ''N/A'']"
    using ra r(3) v(3) by blast
  ultimately show ?thesis using c by blast
qed

definition applier_example_rows :: "row list" where
  "applier_example_rows =
     [replicate 7 new_cell, rendered_row 7 (plain_step\<lparr>sla := Some ''4h''\<rparr>)]"

definition applier_example_result :: "row list" where
  "applier_example_result =
     [replicate 7 new_cell,
      (rendered_row 7 (plain_step\<lparr>sla := Some ''4h''\<rparr>))
        [6 := \<lparr>cell_paragraphs =
                 [\<lparr>par_alignment = Some CENTER, runs = [new_run (Some ''4h''), run9 []],
                   style_font = Some (avenir, 9)\<rparr>],
               tcPr = [Shd ''F2F2F2'' ''clear'']\<rparr>]]"

lemma applier_example_eval:
  "apply_sla_merges [(0, 0, Some ''4h'')] applier_example_rows = Inr applier_example_result"
  by (simp add: applier_example_rows_def applier_example_result_def update_cell_def
      rendered_row_length rendered_row_sla blank_sla_cell_def apply_sla_cell_def set_shading_def
      update_paragraph0_def new_run_def)

text \<open>
  C6.  Whatever the ranges, the applier only writes to the cell at index 6 of a row:
  when it returns, the table has the rows it had, every row has the cells it had, and
  every cell of every row other than the SLA cell is as it was, the six cells before it
  with their paragraphs, runs and shading among them.
\<close>

theorem applier_writes_sla_column_only:
  assumes "apply_sla_merges ms rs = Inr rs'"
  shows "length rs' = length rs
       \<and> (\<forall>r. length (rs' ! r) = length (rs ! r))
       \<and> (\<forall>r c. c \<noteq> 6 \<longrightarrow> rs' ! r ! c = rs ! r ! c)
       \<and> (\<forall>r c. c < 6 \<longrightarrow> cell_paragraphs (rs' ! r ! c) = cell_paragraphs (rs ! r ! c)
                          \<and> tcPr (rs' ! r ! c) = tcPr (rs ! r ! c))"
  using apply_sla_merges_frame [OF assms] by simp

theorem applier_writes_sla_column_only_witness:
  "apply_sla_merges [(0, 0, Some ''4h'')] applier_example_rows = Inr applier_example_result
   \<and> length applier_example_result = length applier_example_rows
   \<and> applier_example_result ! 1 ! 0 = applier_example_rows ! 1 ! 0
   \<and> applier_example_result ! 1 ! 5 = applier_example_rows ! 1 ! 5
   \<and> applier_example_result ! 1 ! 6 \<noteq> applier_example_rows ! 1 ! 6"
proof -
  have ne: "applier_example_result ! 1 ! 6 \<noteq> applier_example_rows ! 1 ! 6"
    by (simp add: applier_example_result_def applier_example_rows_def rendered_row_length
        rendered_row_sla blank_sla_cell_def)
  show ?thesis
    using applier_writes_sla_column_only [OF applier_example_eval] applier_example_eval ne
    by simp
qed

section \<open>The applier on rendered rows\<close>

text \<open>
  The SLA cell as the applier leaves it, when the cell has a run to write to and the
  range has a value.
\<close>

definition touch :: "merge_range \<Rightarrow> nat \<Rightarrow> cell \<Rightarrow> cell" where
  "touch m row_offset c = (case apply_sla_cell m row_offset c of Inr c' \<Rightarrow> c' | Inl e \<Rightarrow> c)"

text \<open>A cell with a first paragraph that has a run.\<close>

definition writable :: "cell \<Rightarrow> bool" where
  "writable c = (case cell_paragraphs c of [] \<Rightarrow> False | p # ps \<Rightarrow> runs p \<noteq> [])"

lemma apply_sla_cell_touch:
  "writable c \<Longrightarrow> snd (snd m) \<noteq> None \<Longrightarrow>
   apply_sla_cell m row_offset c = Inr (touch m row_offset c)
   \<and> writable (touch m row_offset c)"
  by (cases m; cases "cell_paragraphs c"; cases "runs (hd (cell_paragraphs c))")
     (auto simp: touch_def apply_sla_cell_def set_shading_def writable_def Let_def)



text \<open>Every data row has an SLA cell with a run to write to.\<close>

definition sla_cells_ready :: "row list \<Rightarrow> bool" where
  "sla_cells_ready rs =
     (\<forall>i. 0 < i \<and> i < length rs \<longrightarrow> 6 < length (rs ! i) \<and> writable (rs ! i ! 6))"

lemma apply_range_effect:
  assumes "sla_cells_ready rs" "\<forall>k \<in> set offsets. Suc k < length rs" "distinct offsets"
    and val: "snd (snd m) \<noteq> None"
  shows "\<exists>rs'. apply_range m offsets rs = Inr rs' \<and> length rs' = length rs
      \<and> sla_cells_ready rs' \<and> rs' ! 0 = rs ! 0
      \<and> (\<forall>k. Suc k < length rs \<longrightarrow>
            rs' ! Suc k = (if k \<in> set offsets
                           then (rs ! Suc k)[6 := touch m k (rs ! Suc k ! 6)]
                           else rs ! Suc k))"
  using assms
proof (induction offsets arbitrary: rs)
  case Nil
  then show ?case by simp
next
  case (Cons row_offset offsets)
  let ?row = "rs ! Suc row_offset"
  let ?rs1 = "rs[Suc row_offset := ?row[6 := touch m row_offset (?row ! 6)]]"
  have inr: "Suc row_offset < length rs" using Cons.prems(2) by simp
  then have six: "6 < length ?row" and par: "writable (?row ! 6)"
    using Cons.prems(1) by (auto simp: sla_cells_ready_def)
  have u: "update_cell 6 (apply_sla_cell m row_offset) ?row
      = Inr (?row[6 := touch m row_offset (?row ! 6)])"
    using six apply_sla_cell_touch [OF par val, of row_offset] by (simp add: update_cell_def)
  have ready1: "sla_cells_ready ?rs1"
    unfolding sla_cells_ready_def
  proof (intro allI impI)
    fix i assume i: "0 < i \<and> i < length ?rs1"
    show "6 < length (?rs1 ! i) \<and> writable (?rs1 ! i ! 6)"
    proof (cases "i = Suc row_offset")
      case True
      then show ?thesis
        using inr six apply_sla_cell_touch [OF par val, of row_offset] by simp
    next
      case False
      then show ?thesis
        using i Cons.prems(1) by (simp add: sla_cells_ready_def)
    qed
  qed
  have "\<exists>rs'. apply_range m offsets ?rs1 = Inr rs' \<and> length rs' = length ?rs1
      \<and> sla_cells_ready rs' \<and> rs' ! 0 = ?rs1 ! 0
      \<and> (\<forall>k. Suc k < length ?rs1 \<longrightarrow>
            rs' ! Suc k = (if k \<in> set offsets
                           then (?rs1 ! Suc k)[6 := touch m k (?rs1 ! Suc k ! 6)]
                           else ?rs1 ! Suc k))"
    using Cons.prems by (intro Cons.IH [OF ready1]) simp_all
  then obtain rs' where a: "apply_range m offsets ?rs1 = Inr rs'"
    and l: "length rs' = length rs" and r: "sla_cells_ready rs'" and z: "rs' ! 0 = rs ! 0"
    and e: "\<forall>k. Suc k < length rs \<longrightarrow>
            rs' ! Suc k = (if k \<in> set offsets
                           then (?rs1 ! Suc k)[6 := touch m k (?rs1 ! Suc k ! 6)]
                           else ?rs1 ! Suc k)"
    by auto
  have "\<forall>k. Suc k < length rs \<longrightarrow>
      rs' ! Suc k = (if k \<in> set (row_offset # offsets)
                     then (rs ! Suc k)[6 := touch m k (rs ! Suc k ! 6)]
                     else rs ! Suc k)"
  proof (intro allI impI)
    fix k assume k: "Suc k < length rs"
    show "rs' ! Suc k = (if k \<in> set (row_offset # offsets)
                     then (rs ! Suc k)[6 := touch m k (rs ! Suc k ! 6)]
                     else rs ! Suc k)"
    proof (cases "k = row_offset")
      case True
      then have "k \<notin> set offsets" using Cons.prems(3) by simp
      then show ?thesis using e k True inr by simp
    next
      case False
      then show ?thesis using e k by simp
    qed
  qed
  then show ?case
    using inr u a l r z by (simp add: Let_def)
qed

lemma apply_sla_merges_effect:
  assumes "sla_cells_ready rs" "ranges_from lo ms" "\<forall>(s, e, v) \<in> set ms. Suc e < length rs"
    and "\<forall>m \<in> set ms. snd (snd m) \<noteq> None"
  shows "\<exists>rs'. apply_sla_merges ms rs = Inr rs' \<and> length rs' = length rs
      \<and> sla_cells_ready rs' \<and> rs' ! 0 = rs ! 0
      \<and> (\<forall>k. Suc k < length rs \<longrightarrow>
            (\<forall>s e v. (s, e, v) \<in> set ms \<and> s \<le> k \<and> k \<le> e \<longrightarrow>
               rs' ! Suc k = (rs ! Suc k)[6 := touch (s, e, v) k (rs ! Suc k ! 6)])
          \<and> ((\<forall>s e v. (s, e, v) \<in> set ms \<longrightarrow> \<not> (s \<le> k \<and> k \<le> e)) \<longrightarrow>
               rs' ! Suc k = rs ! Suc k))"
  using assms
proof (induction ms arbitrary: rs lo)
  case Nil
  then show ?case by simp
next
  case (Cons m ms)
  obtain s e v where m: "m = (s, e, v)" by (cases m)
  have se: "lo \<le> s" "s \<le> e" and sorted: "ranges_from (Suc e) ms"
    using Cons.prems(2) by (simp_all add: m)
  have bound: "Suc e < length rs" using Cons.prems(3) by (simp add: m)
  have later: "\<And>s' e' v'. (s', e', v') \<in> set ms \<Longrightarrow> e < s'"
    using ranges_from_member [OF sorted] by fastforce
  obtain rs1 where a1: "apply_range (s, e, v) [s..<e + 1] rs = Inr rs1"
    and l1: "length rs1 = length rs" and r1: "sla_cells_ready rs1" and z1: "rs1 ! 0 = rs ! 0"
    and e1: "\<forall>k. Suc k < length rs \<longrightarrow>
            rs1 ! Suc k = (if k \<in> set [s..<e + 1]
                           then (rs ! Suc k)[6 := touch (s, e, v) k (rs ! Suc k ! 6)]
                           else rs ! Suc k)"
  proof -
    have p2: "\<forall>k \<in> set [s..<e + 1]. Suc k < length rs" using bound by auto
    have p3: "distinct [s..<e + 1]" by simp
    have p4: "snd (snd (s, e, v)) \<noteq> None" using Cons.prems(4) by (simp add: m)
    from apply_range_effect [OF Cons.prems(1) p2 p3 p4] that
    show thesis by blast
  qed
  have "\<exists>rs'. apply_sla_merges ms rs1 = Inr rs' \<and> length rs' = length rs1
      \<and> sla_cells_ready rs' \<and> rs' ! 0 = rs1 ! 0
      \<and> (\<forall>k. Suc k < length rs1 \<longrightarrow>
            (\<forall>s e v. (s, e, v) \<in> set ms \<and> s \<le> k \<and> k \<le> e \<longrightarrow>
               rs' ! Suc k = (rs1 ! Suc k)[6 := touch (s, e, v) k (rs1 ! Suc k ! 6)])
          \<and> ((\<forall>s e v. (s, e, v) \<in> set ms \<longrightarrow> \<not> (s \<le> k \<and> k \<le> e)) \<longrightarrow>
               rs' ! Suc k = rs1 ! Suc k))"
    using Cons.prems(3,4) l1 by (intro Cons.IH [OF r1 sorted]) auto
  then obtain rs' where a2: "apply_sla_merges ms rs1 = Inr rs'"
    and l2: "length rs' = length rs" and r2: "sla_cells_ready rs'" and z2: "rs' ! 0 = rs ! 0"
    and e2: "\<forall>k. Suc k < length rs \<longrightarrow>
            (\<forall>s e v. (s, e, v) \<in> set ms \<and> s \<le> k \<and> k \<le> e \<longrightarrow>
               rs' ! Suc k = (rs1 ! Suc k)[6 := touch (s, e, v) k (rs1 ! Suc k ! 6)])
          \<and> ((\<forall>s e v. (s, e, v) \<in> set ms \<longrightarrow> \<not> (s \<le> k \<and> k \<le> e)) \<longrightarrow>
               rs' ! Suc k = rs1 ! Suc k)"
    using l1 z1 by auto
  have eff: "\<forall>k. Suc k < length rs \<longrightarrow>
            (\<forall>s' e' v'. (s', e', v') \<in> set (m # ms) \<and> s' \<le> k \<and> k \<le> e' \<longrightarrow>
               rs' ! Suc k = (rs ! Suc k)[6 := touch (s', e', v') k (rs ! Suc k ! 6)])
          \<and> ((\<forall>s' e' v'. (s', e', v') \<in> set (m # ms) \<longrightarrow> \<not> (s' \<le> k \<and> k \<le> e')) \<longrightarrow>
               rs' ! Suc k = rs ! Suc k)"
  proof (intro allI impI)
    fix k assume k: "Suc k < length rs"
    show "(\<forall>s' e' v'. (s', e', v') \<in> set (m # ms) \<and> s' \<le> k \<and> k \<le> e' \<longrightarrow>
               rs' ! Suc k = (rs ! Suc k)[6 := touch (s', e', v') k (rs ! Suc k ! 6)])
          \<and> ((\<forall>s' e' v'. (s', e', v') \<in> set (m # ms) \<longrightarrow> \<not> (s' \<le> k \<and> k \<le> e')) \<longrightarrow>
               rs' ! Suc k = rs ! Suc k)"
    proof (cases "s \<le> k \<and> k \<le> e")
      case True
      then have "k \<in> set [s..<e + 1]" by auto
      then have first: "rs1 ! Suc k = (rs ! Suc k)[6 := touch (s, e, v) k (rs ! Suc k ! 6)]"
        using e1 k by presburger
      have none: "\<forall>s' e' v'. (s', e', v') \<in> set ms \<longrightarrow> \<not> (s' \<le> k \<and> k \<le> e')"
        using later True by fastforce
      then have last: "rs' ! Suc k = rs1 ! Suc k" using e2 k by blast
      have c1: "\<forall>s' e' v'. (s', e', v') \<in> set (m # ms) \<and> s' \<le> k \<and> k \<le> e' \<longrightarrow>
               rs' ! Suc k = (rs ! Suc k)[6 := touch (s', e', v') k (rs ! Suc k ! 6)]"
        using first last none by (auto simp: m)
      have "(s, e, v) \<in> set (m # ms)" by (simp add: m)
      then have c2: "\<not> (\<forall>s' e' v'. (s', e', v') \<in> set (m # ms) \<longrightarrow> \<not> (s' \<le> k \<and> k \<le> e'))"
        using True by blast
      show ?thesis using c1 c2 by blast
    next
      case False
      then have "k \<notin> set [s..<e + 1]" by auto
      then have same: "rs1 ! Suc k = rs ! Suc k" using e1 k by presburger
      show ?thesis
        using e2 k False same by (auto simp: m)
    qed
  qed
  show ?case
    using a1 a2 l2 r2 z2 eff by (simp add: m)
qed

lemma fold_remove_row_take:
  "fold remove_row (rev [keep..<length rs]) rs = take keep rs"
proof (induction rs rule: rev_induct)
  case Nil
  then show ?case by simp
next
  case (snoc x xs)
  show ?case
  proof (cases "keep \<le> length xs")
    case True
    have "remove_row (length xs) (xs @ [x]) = xs" by (simp add: remove_row_def)
    then show ?thesis using True snoc by simp
  next
    case False
    then show ?thesis by simp
  qed
qed

lemma clear_rows_rows [simp]: "rows (clear_rows keep t) = take keep (rows t)"
  by (simp add: clear_rows_def fold_remove_row_take)

lemma clear_rows_columns [simp]: "columns (clear_rows keep t) = columns t"
  by (simp add: clear_rows_def)

lemma rendered_rows_ready:
  assumes "7 \<le> n"
  shows "sla_cells_ready (header # map (rendered_row n) steps)"
  unfolding sla_cells_ready_def
proof (intro allI impI)
  fix i assume "0 < i \<and> i < length (header # map (rendered_row n) steps)"
  then obtain k where i: "i = Suc k" and k: "k < length steps" by (cases i) auto
  show "6 < length ((header # map (rendered_row n) steps) ! i)
      \<and> writable ((header # map (rendered_row n) steps) ! i ! 6)"
    using assms k
    by (simp add: i rendered_row_length rendered_row_sla blank_sla_cell_def writable_def)
qed

lemma sla_merges_bounded:
  "(s, e, v) \<in> set (sla_merges steps) \<Longrightarrow> s \<le> e \<and> e < length steps"
  using sla_merges_from_member [of s e v steps 0] range_end_bounds [of s steps]
  by (simp add: sla_merges_def)

text \<open>
  The table of the process description after the rows are rendered and the planner's
  ranges applied, for a template table with a header row and at least seven columns.
\<close>

lemma rendered_and_merged:
  assumes "7 \<le> columns t0" "rows t0 \<noteq> []"
    and vals: "\<forall>m \<in> set (sla_merges steps). snd (snd m) \<noteq> None"
  shows "\<exists>t' rs.
      render_steps steps (clear_rows 1 t0) = Inr t'
    \<and> rows t' = hd (rows t0) # map (rendered_row (columns t0)) steps
    \<and> columns t' = columns t0
    \<and> apply_sla_merges (sla_merges steps) (rows t') = Inr rs
    \<and> length rs = Suc (length steps)
    \<and> rs ! 0 = hd (rows t0)
    \<and> (\<forall>k. k < length steps \<longrightarrow>
          (\<forall>s e v. (s, e, v) \<in> set (sla_merges steps) \<and> s \<le> k \<and> k \<le> e \<longrightarrow>
             rs ! Suc k = (rendered_row (columns t0) (steps ! k))[6 := touch (s, e, v) k blank_sla_cell])
        \<and> ((\<forall>s e v. (s, e, v) \<in> set (sla_merges steps) \<longrightarrow> \<not> (s \<le> k \<and> k \<le> e)) \<longrightarrow>
             rs ! Suc k = rendered_row (columns t0) (steps ! k)))"
proof -
  let ?n = "columns t0"
  let ?rs0 = "hd (rows t0) # map (rendered_row ?n) steps"
  let ?t' = "(clear_rows 1 t0)\<lparr>rows := ?rs0\<rparr>"
  have tk: "take (Suc 0) (rows t0) = [hd (rows t0)]"
    using assms(2) by (cases "rows t0") simp_all
  have r: "render_steps steps (clear_rows 1 t0) = Inr ?t'"
    using render_steps_rendered [of "clear_rows 1 t0" steps] assms(1) by (simp add: tk)
  have ready: "sla_cells_ready ?rs0"
    by (rule rendered_rows_ready [OF assms(1)])
  have sorted: "ranges_from 0 (sla_merges steps)"
    by (simp add: sla_merges_def sla_merges_from_ranges)
  have bound: "\<forall>(s, e, v) \<in> set (sla_merges steps). Suc e < length ?rs0"
    using sla_merges_bounded [of _ _ _ steps] by auto
  from apply_sla_merges_effect [OF ready sorted bound vals]
  obtain rs where a: "apply_sla_merges (sla_merges steps) ?rs0 = Inr rs"
    and l: "length rs = length ?rs0" and z: "rs ! 0 = ?rs0 ! 0"
    and e: "\<forall>k. Suc k < length ?rs0 \<longrightarrow>
            (\<forall>s e v. (s, e, v) \<in> set (sla_merges steps) \<and> s \<le> k \<and> k \<le> e \<longrightarrow>
               rs ! Suc k = (?rs0 ! Suc k)[6 := touch (s, e, v) k (?rs0 ! Suc k ! 6)])
          \<and> ((\<forall>s e v. (s, e, v) \<in> set (sla_merges steps) \<longrightarrow> \<not> (s \<le> k \<and> k \<le> e)) \<longrightarrow>
               rs ! Suc k = ?rs0 ! Suc k)"
    by blast
  have e': "\<forall>k. k < length steps \<longrightarrow>
          (\<forall>s e v. (s, e, v) \<in> set (sla_merges steps) \<and> s \<le> k \<and> k \<le> e \<longrightarrow>
             rs ! Suc k = (rendered_row ?n (steps ! k))[6 := touch (s, e, v) k blank_sla_cell])
        \<and> ((\<forall>s e v. (s, e, v) \<in> set (sla_merges steps) \<longrightarrow> \<not> (s \<le> k \<and> k \<le> e)) \<longrightarrow>
             rs ! Suc k = rendered_row ?n (steps ! k))"
  proof (intro allI impI)
    fix k assume k: "k < length steps"
    then have "Suc k < length ?rs0" by simp
    moreover have "?rs0 ! Suc k = rendered_row ?n (steps ! k)" using k by simp
    moreover have "rendered_row ?n (steps ! k) ! 6 = blank_sla_cell"
      by (rule rendered_row_sla [OF assms(1)])
    ultimately show "(\<forall>s e v. (s, e, v) \<in> set (sla_merges steps) \<and> s \<le> k \<and> k \<le> e \<longrightarrow>
             rs ! Suc k = (rendered_row ?n (steps ! k))[6 := touch (s, e, v) k blank_sla_cell])
        \<and> ((\<forall>s e v. (s, e, v) \<in> set (sla_merges steps) \<longrightarrow> \<not> (s \<le> k \<and> k \<le> e)) \<longrightarrow>
             rs ! Suc k = rendered_row ?n (steps ! k))"
      using e by metis
  qed
  show ?thesis
    using r a l z e' by (intro exI [of _ ?t'] exI [of _ rs]) simp
qed

definition header_table :: table where
  "header_table = \<lparr>columns = 7, rows = [replicate 7 new_cell]\<rparr>"





section \<open>Stages of the build\<close>

lemma and_then_eq_Inr:
  "and_then r f = Inr y \<longleftrightarrow> (\<exists>x. r = Inr x \<and> f x = Inr y)"
  by (cases r) simp_all

lemma add_row_last [simp]: "last (rows (add_row t)) = replicate (columns t) new_cell"
  by (simp add: add_row_def)

lemma add_row_butlast [simp]: "butlast (rows (add_row t)) = rows t"
  by (simp add: add_row_def)

lemma add_row_columns [simp]: "columns (add_row t) = columns t"
  by (simp add: add_row_def)

lemma render_row_narrow:
  assumes "n < 7"
  shows "render_row step (replicate n new_cell) = Inl IndexError"
proof -
  have "n = 0 \<or> n = 1 \<or> n = 2 \<or> n = 3 \<or> n = 4 \<or> n = 5 \<or> n = 6"
    using assms by arith
  then show ?thesis
    by (elim disjE)
       (simp_all add: render_row_def update_cell_def upt_2_7 render_ref_cell_new
          render_desc_cell_new render_sla_cell_new render_raci_cell_new [of _ _ step]
          raci_map_def numeral_eq_Suc)
qed

lemma render_steps_narrow:
  "columns t < 7 \<Longrightarrow> steps \<noteq> [] \<Longrightarrow> render_steps steps t = Inl IndexError"
  by (cases steps) (simp_all add: render_row_narrow)

lemma render_steps_result:
  assumes "render_steps steps t = Inr t'"
  shows "rows t' = rows t @ map (rendered_row (columns t)) steps \<and> columns t' = columns t
       \<and> (steps \<noteq> [] \<longrightarrow> 7 \<le> columns t)"
proof (cases "7 \<le> columns t")
  case True
  then show ?thesis using assms render_steps_rendered [OF True, of steps] by auto
next
  case False
  then have "steps = []" using assms render_steps_narrow [of t steps] by (cases steps) auto
  then show ?thesis using assms by simp
qed

lemma format_cells_ok:
  "\<forall>c \<in> set cs. cell_paragraphs c \<noteq> [] \<Longrightarrow> \<exists>cs'. format_cells bold_first idx cs = Inr cs'"
proof (induction cs arbitrary: idx)
  case Nil
  then show ?case by simp
next
  case (Cons c cs)
  then obtain p ps where "cell_paragraphs c = p # ps" by (cases "cell_paragraphs c") auto
  then obtain c' where "format_cell (bold_first \<and> idx = 0) c = Inr c'"
    by (simp add: format_cell_def update_paragraph0_def)
  moreover obtain cs' where "format_cells bold_first (idx + 1) cs = Inr cs'"
    using Cons by auto
  ultimately show ?case by simp
qed

lemma add_pair_row_narrow: "columns t < 2 \<Longrightarrow> add_pair_row bold_first a b t = Inl IndexError"
proof -
  assume "columns t < 2"
  then have "columns t = 0 \<or> columns t = 1" by arith
  then show ?thesis
    by (auto simp: add_pair_row_def update_cell_def Let_def)
qed

lemma add_pair_row_ok:
  assumes "2 \<le> columns t"
  shows "\<exists>t'. add_pair_row bold_first a b t = Inr t' \<and> columns t' = columns t"
proof -
  let ?cells = "(replicate (columns t) new_cell)[0 := set_text a new_cell, 1 := set_text b new_cell]"
  have "\<forall>c \<in> set ?cells. cell_paragraphs c \<noteq> []"
  proof
    fix c assume "c \<in> set ?cells"
    then have "c \<in> {set_text a new_cell, set_text b new_cell, new_cell}"
      using set_update_subset_insert [of "(replicate (columns t) new_cell)[0 := set_text a new_cell]" 1 "set_text b new_cell"]
        set_update_subset_insert [of "replicate (columns t) new_cell" 0 "set_text a new_cell"]
      by auto
    then show "cell_paragraphs c \<noteq> []"
      by (auto simp: set_text_def new_cell_def)
  qed
  then obtain cs' where "format_cells bold_first 0 ?cells = Inr cs'"
    using format_cells_ok by blast
  then show ?thesis
    using assms by (simp add: add_pair_row_def update_cell_def Let_def)
qed

lemma add_pair_rows_ok:
  "2 \<le> columns t \<Longrightarrow> \<exists>t'. add_pair_rows items t = Inr t' \<and> columns t' = columns t"
proof (induction items arbitrary: t)
  case Nil
  then show ?case by simp
next
  case (Cons item items)
  obtain a b where i: "item = (a, b)" by (cases item)
  obtain t1 where t1: "add_pair_row True a b t = Inr t1" "columns t1 = columns t"
    using add_pair_row_ok [OF Cons.prems] by blast
  then obtain t' where "add_pair_rows items t1 = Inr t'" "columns t' = columns t1"
    using Cons.IH [of t1] Cons.prems by auto
  then show ?case using t1 by (simp add: i)
qed

lemma populate_pairs_narrow: "columns t < 2 \<Longrightarrow> populate_pairs items t = Inl IndexError"
  by (cases items) (auto simp: populate_pairs_def add_pair_row_narrow Let_def)

lemma populate_pairs_ok:
  "2 \<le> columns t \<Longrightarrow> \<exists>t'. populate_pairs items t = Inr t' \<and> columns t' = columns t"
  using add_pair_rows_ok [of "clear_rows 2 t" items] add_pair_row_ok [of "clear_rows 2 t"]
  by (simp add: populate_pairs_def Let_def)

lemma add_policy_row_narrow: "columns t < 2 \<Longrightarrow> add_policy_row a b t = Inl IndexError"
proof -
  assume "columns t < 2"
  then have "columns t = 0 \<or> columns t = 1" by arith
  then show ?thesis
    by (auto simp: add_policy_row_def update_cell_def Let_def update_paragraph0_def set_text_def)
qed

lemma add_policy_row_ok:
  "2 \<le> columns t \<Longrightarrow> \<exists>t'. add_policy_row a b t = Inr t' \<and> columns t' = columns t"
  by (simp add: add_policy_row_def update_cell_def Let_def update_paragraph0_def set_text_def)

lemma add_policy_rows_ok:
  "2 \<le> columns t \<Longrightarrow> \<exists>t'. add_policy_rows idx policies t = Inr t' \<and> columns t' = columns t"
proof (induction policies arbitrary: t idx)
  case Nil
  then show ?case by simp
next
  case (Cons p policies)
  obtain t1 where t1: "add_policy_row (str idx) (get_or_empty (policy_text p)) t = Inr t1"
    "columns t1 = columns t"
    using add_policy_row_ok [OF Cons.prems] by blast
  then obtain t' where "add_policy_rows (idx + 1) policies t1 = Inr t'" "columns t' = columns t1"
    using Cons.IH [of t1] Cons.prems by auto
  then show ?case using t1 by simp
qed

lemma populate_policies_narrow: "columns t < 2 \<Longrightarrow> populate_policies policies t = Inl IndexError"
  by (cases policies) (auto simp: populate_policies_def add_policy_row_narrow Let_def)

lemma populate_policies_ok:
  "2 \<le> columns t \<Longrightarrow> \<exists>t'. populate_policies policies t = Inr t'"
  using add_policy_rows_ok [of "clear_rows 1 t" 1 policies] add_policy_row_ok [of "clear_rows 1 t"]
  by (auto simp: populate_policies_def Let_def)

lemma fix_front_matter_length [simp]: "length (fix_front_matter tables) = length tables"
  by (simp add: fix_front_matter_def)

lemma fix_front_matter_nth:
  "i < length tables \<Longrightarrow>
   fix_front_matter tables ! i = (if i < 6 then fix_table_fonts (tables ! i) else tables ! i)"
  by (simp add: fix_front_matter_def)

lemma fix_table_fonts_columns [simp]: "columns (fix_table_fonts t) = columns t"
  by (simp add: fix_table_fonts_def)

lemma fix_front_matter_columns:
  "i < length tables \<Longrightarrow> columns (fix_front_matter tables ! i) = columns (tables ! i)"
  by (simp add: fix_front_matter_nth)

lemma on_table_result:
  "on_table i f tables = Inr tables' \<Longrightarrow>
   length tables' = length tables \<and> (\<forall>j. j \<noteq> i \<longrightarrow> tables' ! j = tables ! j)
   \<and> (i < length tables \<longrightarrow> f (tables ! i) = Inr (tables' ! i))"
  by (auto simp: on_table_def and_then_eq_Inr split: if_splits)

lemma on_table_ok:
  "(i < length tables \<Longrightarrow> \<exists>t'. f (tables ! i) = Inr t') \<Longrightarrow> \<exists>tables'. on_table i f tables = Inr tables'"
  by (auto simp: on_table_def)

lemma build_doc_stages:
  assumes "build_doc ctx tables = Inr doc"
  obtains T1 T2 t' rs where
    "tables \<noteq> []"
    "on_table 3 (populate_pairs (abbreviation_pairs ctx)) (fix_front_matter tables) = Inr T1"
    "on_table 4 (populate_pairs (reference_pairs ctx)) T1 = Inr T2"
    "6 < length T2"
    "render_steps (ctx_steps ctx) (clear_rows 1 (T2 ! 6)) = Inr t'"
    "apply_sla_merges (sla_merges (ctx_steps ctx)) (rows t') = Inr rs"
    "on_table 7 (populate_policies (general_policies_list ctx)) (T2[6 := t'\<lparr>rows := rs\<rparr>]) = Inr doc"
  using assms
  by (auto simp: build_doc_def Let_def and_then_eq_Inr split: if_splits)

lemma build_doc_inversion:
  assumes "build_doc ctx tables = Inr doc"
  shows "7 \<le> length tables \<and> length doc = length tables
       \<and> 2 \<le> columns (tables ! 3) \<and> 2 \<le> columns (tables ! 4)
       \<and> (ctx_steps ctx \<noteq> [] \<longrightarrow> 7 \<le> columns (tables ! 6))
       \<and> (7 < length tables \<longrightarrow> 2 \<le> columns (tables ! 7))
       \<and> apply_sla_merges (sla_merges (ctx_steps ctx))
            (take 1 (rows (tables ! 6)) @ map (rendered_row (columns (tables ! 6))) (ctx_steps ctx))
          = Inr (rows (doc ! 6))"
proof -
  from assms obtain T1 T2 t' rs where
    ne: "tables \<noteq> []"
    and s3: "on_table 3 (populate_pairs (abbreviation_pairs ctx)) (fix_front_matter tables) = Inr T1"
    and s4: "on_table 4 (populate_pairs (reference_pairs ctx)) T1 = Inr T2"
    and l6: "6 < length T2"
    and rn: "render_steps (ctx_steps ctx) (clear_rows 1 (T2 ! 6)) = Inr t'"
    and ap: "apply_sla_merges (sla_merges (ctx_steps ctx)) (rows t') = Inr rs"
    and s7: "on_table 7 (populate_policies (general_policies_list ctx)) (T2[6 := t'\<lparr>rows := rs\<rparr>]) = Inr doc"
    by (rule build_doc_stages)
  note r3 = on_table_result [OF s3]
  note r4 = on_table_result [OF s4]
  note r7 = on_table_result [OF s7]
  have len: "length T1 = length tables" "length T2 = length tables" "length doc = length tables"
    using r3 r4 r7 by simp_all
  then have l: "7 \<le> length tables" using l6 by simp
  have t3: "populate_pairs (abbreviation_pairs ctx) (fix_front_matter tables ! 3) = Inr (T1 ! 3)"
    using r3 l by simp
  have c3: "2 \<le> columns (tables ! 3)"
  proof (rule ccontr)
    assume "\<not> 2 \<le> columns (tables ! 3)"
    then have "columns (fix_front_matter tables ! 3) < 2"
      using l by (simp add: fix_front_matter_columns)
    then show False using t3 populate_pairs_narrow by fastforce
  qed
  have "T1 ! 4 = fix_front_matter tables ! 4" using r3 by simp
  then have t4: "populate_pairs (reference_pairs ctx) (fix_front_matter tables ! 4) = Inr (T2 ! 4)"
    using r4 l len by simp
  have c4: "2 \<le> columns (tables ! 4)"
  proof (rule ccontr)
    assume "\<not> 2 \<le> columns (tables ! 4)"
    then have "columns (fix_front_matter tables ! 4) < 2"
      using l by (simp add: fix_front_matter_columns)
    then show False using t4 populate_pairs_narrow by fastforce
  qed
  have six: "T2 ! 6 = tables ! 6"
    using r3 r4 l by (simp add: fix_front_matter_nth)
  note rr = render_steps_result [OF rn]
  have c6: "ctx_steps ctx \<noteq> [] \<longrightarrow> 7 \<le> columns (tables ! 6)"
    using rr by (simp add: six)
  have rows': "rows t' = take 1 (rows (tables ! 6)) @ map (rendered_row (columns (tables ! 6))) (ctx_steps ctx)"
    using rr by (simp add: six)
  have c7: "7 < length tables \<longrightarrow> 2 \<le> columns (tables ! 7)"
  proof
    assume l7: "7 < length tables"
    have seven: "(T2[6 := t'\<lparr>rows := rs\<rparr>]) ! 7 = tables ! 7"
      using r3 r4 l7 by (simp add: fix_front_matter_nth)
    have "populate_policies (general_policies_list ctx) (tables ! 7) = Inr (doc ! 7)"
      using r7 l7 len seven by simp
    then show "2 \<le> columns (tables ! 7)"
      using populate_policies_narrow [of "tables ! 7"] by fastforce
  qed
  have "doc ! 6 = (T2[6 := t'\<lparr>rows := rs\<rparr>]) ! 6" using r7 by simp
  then have d6: "rows (doc ! 6) = rs" using l6 by simp
  show ?thesis
    using l len c3 c4 c6 c7 ap by (simp add: d6 rows')
qed

text \<open>
  A template the build can fill: the process description table at index 6 with a header
  row and at least seven columns, and at least two columns in the abbreviations, the
  references and, when it is there, the general policies table.
\<close>

definition well_formed_template :: "table list \<Rightarrow> bool" where
  "well_formed_template tables =
     (7 \<le> length tables \<and> 2 \<le> columns (tables ! 3) \<and> 2 \<le> columns (tables ! 4)
      \<and> rows (tables ! 6) \<noteq> [] \<and> 7 \<le> columns (tables ! 6)
      \<and> (if 7 < length tables then 2 \<le> columns (tables ! 7) else True))"

lemma build_doc_ok_from:
  assumes l: "7 \<le> length tables" and c3: "2 \<le> columns (tables ! 3)"
    and c4: "2 \<le> columns (tables ! 4)"
    and c7: "7 < length tables \<Longrightarrow> 2 \<le> columns (tables ! 7)"
    and rn: "render_steps (ctx_steps ctx) (clear_rows 1 (tables ! 6)) = Inr t'"
    and ap: "apply_sla_merges (sla_merges (ctx_steps ctx)) (rows t') = Inr rs"
  shows "\<exists>doc. build_doc ctx tables = Inr doc"
proof -
  have ne: "tables \<noteq> []" using l by auto
  obtain T1 where s3: "on_table 3 (populate_pairs (abbreviation_pairs ctx)) (fix_front_matter tables) = Inr T1"
    using on_table_ok [of 3 "fix_front_matter tables" "populate_pairs (abbreviation_pairs ctx)"]
      populate_pairs_ok [of "fix_front_matter tables ! 3" "abbreviation_pairs ctx"] c3 l
    by (auto simp: fix_front_matter_columns)
  note r3 = on_table_result [OF s3]
  have "columns (T1 ! 4) = columns (tables ! 4)"
    using r3 l by (simp add: fix_front_matter_columns)
  then obtain T2 where s4: "on_table 4 (populate_pairs (reference_pairs ctx)) T1 = Inr T2"
    using on_table_ok [of 4 T1 "populate_pairs (reference_pairs ctx)"]
      populate_pairs_ok [of "T1 ! 4" "reference_pairs ctx"] c4
    by auto
  note r4 = on_table_result [OF s4]
  have l6: "6 < length T2" using r3 r4 l by simp
  have six: "T2 ! 6 = tables ! 6"
    using r3 r4 l by (simp add: fix_front_matter_nth)
  let ?T3 = "T2[6 := t'\<lparr>rows := rs\<rparr>]"
  have "7 < length ?T3 \<Longrightarrow> columns (?T3 ! 7) = columns (tables ! 7)"
    using r3 r4 by (simp add: fix_front_matter_nth)
  then obtain doc where s7: "on_table 7 (populate_policies (general_policies_list ctx)) ?T3 = Inr doc"
    using on_table_ok [of 7 ?T3 "populate_policies (general_policies_list ctx)"]
      populate_policies_ok [of "?T3 ! 7" "general_policies_list ctx"] c7 r3 r4
    by auto
  show ?thesis
    using ne s3 s4 l6 rn ap s7 by (simp add: build_doc_def Let_def six)
qed

lemma build_doc_ok:
  assumes "well_formed_template tables"
    and vals: "\<forall>m \<in> set (sla_merges (ctx_steps ctx)). snd (snd m) \<noteq> None"
  shows "\<exists>doc. build_doc ctx tables = Inr doc"
proof -
  from assms(1) have l: "7 \<le> length tables" and c3: "2 \<le> columns (tables ! 3)"
    and c4: "2 \<le> columns (tables ! 4)" and h: "rows (tables ! 6) \<noteq> []"
    and c6: "7 \<le> columns (tables ! 6)"
    and c7: "7 < length tables \<Longrightarrow> 2 \<le> columns (tables ! 7)"
    by (auto simp: well_formed_template_def split: if_splits)
  from rendered_and_merged [OF c6 h vals]
  obtain t' rs where rn: "render_steps (ctx_steps ctx) (clear_rows 1 (tables ! 6)) = Inr t'"
    and ap: "apply_sla_merges (sla_merges (ctx_steps ctx)) (rows t') = Inr rs"
    by blast
  show ?thesis
    using build_doc_ok_from [OF l c3 c4 _ rn ap] c7 by blast
qed


lemma sla_merges_Nil [simp]: "sla_merges [] = []"
  by (simp add: sla_merges_def sla_merges_from_end)

lemma build_doc_ok_no_steps:
  assumes l: "7 \<le> length tables" and c3: "2 \<le> columns (tables ! 3)"
    and c4: "2 \<le> columns (tables ! 4)"
    and c7: "7 < length tables \<Longrightarrow> 2 \<le> columns (tables ! 7)"
    and e: "ctx_steps ctx = []"
  shows "\<exists>doc. build_doc ctx tables = Inr doc"
proof -
  have rn: "render_steps (ctx_steps ctx) (clear_rows 1 (tables ! 6)) = Inr (clear_rows 1 (tables ! 6))"
    by (simp add: e)
  have ap: "apply_sla_merges (sla_merges (ctx_steps ctx)) (rows (clear_rows 1 (tables ! 6)))
      = Inr (take 1 (rows (tables ! 6)))"
    by (simp add: e)
  show ?thesis
    using build_doc_ok_from [OF l c3 c4 _ rn ap] c7 by blast
qed

lemma apply_range_header: "apply_range m offsets rs = Inr rs' \<Longrightarrow> rs' ! 0 = rs ! 0"
proof (induction offsets arbitrary: rs)
  case Nil
  then show ?case by simp
next
  case (Cons row_offset offsets)
  show ?case
  proof (cases "Suc row_offset < length rs")
    case False
    then show ?thesis using Cons.prems by simp
  next
    case True
    then obtain cells where "apply_range m offsets (rs[Suc row_offset := cells]) = Inr rs'"
      using Cons.prems by (auto simp: and_then_eq_Inr)
    from Cons.IH [OF this] show ?thesis by simp
  qed
qed

lemma apply_sla_merges_header: "apply_sla_merges ms rs = Inr rs' \<Longrightarrow> rs' ! 0 = rs ! 0"
proof (induction ms arbitrary: rs)
  case Nil
  then show ?case by simp
next
  case (Cons m ms)
  obtain s e v where m: "m = (s, e, v)" by (cases m)
  from Cons.prems obtain rs1 where
    a: "apply_range (s, e, v) [s..<e + 1] rs = Inr rs1" and b: "apply_sla_merges ms rs1 = Inr rs'"
    by (auto simp: m and_then_eq_Inr)
  show ?case
    using apply_range_header [OF a] Cons.IH [OF b] by simp
qed

section \<open>Example templates\<close>

definition empty_table :: "nat \<Rightarrow> table" where
  "empty_table n = \<lparr>columns = n, rows = []\<rparr>"

text \<open>Seven tables; the process description table has a header row and seven columns.\<close>

definition example_template :: "table list" where
  "example_template =
     [empty_table 1, empty_table 1, empty_table 1, empty_table 2, empty_table 2,
      empty_table 1, header_table]"

text \<open>The same, with a process description table of three columns only.\<close>

definition narrow_template :: "table list" where
  "narrow_template =
     [empty_table 1, empty_table 1, empty_table 1, empty_table 2, empty_table 2,
      empty_table 1, \<lparr>columns = 3, rows = [replicate 3 new_cell]\<rparr>]"

definition example_context :: build_context where
  "example_context =
     \<lparr>ctx_steps = own_sla_example, abbreviations_list = [], references_list = [],
      general_policies_list = []\<rparr>"

definition no_steps_context :: build_context where
  "no_steps_context =
     \<lparr>ctx_steps = [], abbreviations_list = [], references_list = [],
      general_policies_list = []\<rparr>"

lemma example_template_facts:
  "length example_template = 7" "columns (example_template ! 3) = 2"
  "columns (example_template ! 4) = 2" "columns (example_template ! 6) = 7"
  "rows (example_template ! 6) = [replicate 7 new_cell]"
  by (simp_all add: example_template_def empty_table_def header_table_def)

lemma narrow_template_facts:
  "length narrow_template = 7" "columns (narrow_template ! 3) = 2"
  "columns (narrow_template ! 4) = 2" "columns (narrow_template ! 6) = 3"
  by (simp_all add: narrow_template_def empty_table_def)

lemma example_template_well_formed: "well_formed_template example_template"
  by (simp add: well_formed_template_def example_template_facts)

section \<open>Claims about the assembler\<close>

text \<open>
  C9, as the code has it.  The build checks nothing ahead: it fails where it reads a
  table or a cell that is not there.  With no step to render, no cell of the process
  description table is read, and a template whose process description table has three
  columns only is filled and returned.
\<close>

theorem narrow_table_without_steps_builds:
  "columns (narrow_template ! 6) < 7
   \<and> ctx_steps no_steps_context = []
   \<and> create_word_doc_from_template no_steps_context narrow_template \<noteq> None"
proof -
  have "\<exists>doc. build_doc no_steps_context narrow_template = Inr doc"
    by (rule build_doc_ok_no_steps)
       (simp_all add: narrow_template_facts no_steps_context_def)
  then show ?thesis
    by (auto simp: create_word_doc_from_template_def narrow_template_facts no_steps_context_def)
qed

text \<open>
  C9, amended.  The build returns \<open>None\<close>, and so no document, when the template has no
  tables, when it has fewer than seven tables (the process description table at index 6
  is missing), when the abbreviations or the references table has fewer than two
  columns, when the general policies table is there and has fewer than two columns, and
  when there is at least one step and the process description table has fewer than
  seven columns.
\<close>

theorem structural_problem_aborts:
  assumes "tables = []
         \<or> length tables < 7
         \<or> (3 < length tables \<and> columns (tables ! 3) < 2)
         \<or> (4 < length tables \<and> columns (tables ! 4) < 2)
         \<or> (ctx_steps ctx \<noteq> [] \<and> columns (tables ! 6) < 7)
         \<or> (7 < length tables \<and> columns (tables ! 7) < 2)"
  shows "create_word_doc_from_template ctx tables = None"
proof (cases "build_doc ctx tables")
  case (Inl e)
  then show ?thesis by (simp add: create_word_doc_from_template_def)
next
  case (Inr doc)
  from build_doc_inversion [OF Inr] assms show ?thesis by auto
qed

theorem structural_problem_aborts_witness:
  "create_word_doc_from_template example_context [] = None
   \<and> create_word_doc_from_template example_context (take 6 example_template) = None
   \<and> ctx_steps example_context \<noteq> []
   \<and> columns (narrow_template ! 6) < 7
   \<and> create_word_doc_from_template example_context narrow_template = None"
proof -
  have s: "ctx_steps example_context \<noteq> []"
    by (simp add: example_context_def own_sla_example_def)
  have n: "columns (narrow_template ! 6) < 7"
    by (simp add: narrow_template_facts)
  have l: "length (take 6 example_template) < 7" by simp
  show ?thesis
    using structural_problem_aborts [of "[]" example_context]
      structural_problem_aborts [of "take 6 example_template" example_context]
      structural_problem_aborts [of narrow_template example_context] s n l
    by simp
qed

text \<open>
  C7.  When the build returns a document, its process description table holds the
  header row of the template followed by one row per step, in the order of the steps:
  the cells of the \<open>i\<close>-th data row, the SLA cell apart, are the cells the renderer makes
  for the \<open>i\<close>-th step.  The loop over the steps itself returns for every step sequence
  when the table has at least seven columns, with one rendered row per step behind the
  header.  For an empty step sequence and a well-formed template the build returns a
  document whose process description table is the header row alone.
\<close>

theorem data_rows_match_steps:
  "(create_word_doc_from_template ctx tables = Some doc \<longrightarrow>
       length (rows (doc ! 6)) = length (take 1 (rows (tables ! 6))) + length (ctx_steps ctx)
     \<and> (rows (tables ! 6) \<noteq> [] \<longrightarrow> rows (doc ! 6) ! 0 = rows (tables ! 6) ! 0)
     \<and> (\<forall>i c. i < length (ctx_steps ctx) \<and> c \<noteq> 6 \<longrightarrow>
           (\<exists>cells. render_row (ctx_steps ctx ! i) (replicate (columns (tables ! 6)) new_cell)
                      = Inr cells
                  \<and> rows (doc ! 6) ! (length (take 1 (rows (tables ! 6))) + i) ! c = cells ! c)))
   \<and> (7 \<le> columns t0 \<longrightarrow>
        (\<exists>t'. render_steps steps (clear_rows 1 t0) = Inr t'
             \<and> length (rows t') = length (take 1 (rows t0)) + length steps
             \<and> (\<forall>i. i < length steps \<longrightarrow>
                   render_row (steps ! i) (replicate (columns t0) new_cell)
                     = Inr (rows t' ! (length (take 1 (rows t0)) + i)))))
   \<and> (well_formed_template tables \<and> ctx_steps ctx = [] \<longrightarrow>
        (\<exists>d. create_word_doc_from_template ctx tables = Some d
            \<and> rows (d ! 6) = [hd (rows (tables ! 6))]))"
proof (intro conjI impI)
  assume b: "create_word_doc_from_template ctx tables = Some doc"
  then have bd: "build_doc ctx tables = Inr doc"
    by (auto simp: create_word_doc_from_template_def split: sum.splits)
  let ?steps = "ctx_steps ctx"
  let ?hdr = "take 1 (rows (tables ! 6))"
  let ?n = "columns (tables ! 6)"
  let ?rs0 = "?hdr @ map (rendered_row ?n) ?steps"
  from build_doc_inversion [OF bd]
  have c6: "?steps \<noteq> [] \<longrightarrow> 7 \<le> ?n"
    and ap: "apply_sla_merges (sla_merges ?steps) ?rs0 = Inr (rows (doc ! 6))"
    by simp_all
  note fr = apply_sla_merges_frame [OF ap]
  show "length (rows (doc ! 6)) = length ?hdr + length ?steps"
    using fr by simp
  show "rows (doc ! 6) ! 0 = rows (tables ! 6) ! 0" if "rows (tables ! 6) \<noteq> []"
    using apply_sla_merges_header [OF ap] that by (cases "rows (tables ! 6)") simp_all
  show "\<forall>i c. i < length ?steps \<and> c \<noteq> 6 \<longrightarrow>
      (\<exists>cells. render_row (?steps ! i) (replicate ?n new_cell) = Inr cells
             \<and> rows (doc ! 6) ! (length ?hdr + i) ! c = cells ! c)"
  proof (intro allI impI, elim conjE)
    fix i c :: nat assume i: "i < length ?steps" and c: "c \<noteq> 6"
    then have n: "7 \<le> ?n" using c6 by auto
    have "rows (doc ! 6) ! (length ?hdr + i) ! c = ?rs0 ! (length ?hdr + i) ! c"
      using fr c by simp
    also have "?rs0 ! (length ?hdr + i) = rendered_row ?n (?steps ! i)"
      using i nth_append_length_plus [of ?hdr "map (rendered_row ?n) ?steps" i]
      by (simp del: length_take)
    finally show "\<exists>cells. render_row (?steps ! i) (replicate ?n new_cell) = Inr cells
        \<and> rows (doc ! 6) ! (length ?hdr + i) ! c = cells ! c"
      using render_row_rendered [OF n, of "?steps ! i"] by simp
  qed
next
  assume n: "7 \<le> columns t0"
  let ?t' = "(clear_rows 1 t0)\<lparr>rows := take 1 (rows t0) @ map (rendered_row (columns t0)) steps\<rparr>"
  have r: "render_steps steps (clear_rows 1 t0) = Inr ?t'"
    using render_steps_rendered [of "clear_rows 1 t0" steps] n by simp
  have "\<forall>i. i < length steps \<longrightarrow>
      render_row (steps ! i) (replicate (columns t0) new_cell)
        = Inr (rows ?t' ! (length (take 1 (rows t0)) + i))"
    using render_row_rendered [OF n]
      nth_append_length_plus [of "take 1 (rows t0)" "map (rendered_row (columns t0)) steps"]
    by (simp del: length_take)
  then show "\<exists>t'. render_steps steps (clear_rows 1 t0) = Inr t'
      \<and> length (rows t') = length (take 1 (rows t0)) + length steps
      \<and> (\<forall>i. i < length steps \<longrightarrow>
            render_row (steps ! i) (replicate (columns t0) new_cell)
              = Inr (rows t' ! (length (take 1 (rows t0)) + i)))"
    using r by (intro exI [of _ ?t']) simp
next
  assume w: "well_formed_template tables \<and> ctx_steps ctx = []"
  then have "\<forall>m \<in> set (sla_merges (ctx_steps ctx)). snd (snd m) \<noteq> None"
    by simp
  then obtain d where d: "build_doc ctx tables = Inr d"
    using build_doc_ok w by blast
  from build_doc_inversion [OF d] w have "rows (d ! 6) = take 1 (rows (tables ! 6))"
    by simp
  moreover have "rows (tables ! 6) \<noteq> []"
    using w by (simp add: well_formed_template_def)
  ultimately have "rows (d ! 6) = [hd (rows (tables ! 6))]"
    by (cases "rows (tables ! 6)") simp_all
  then show "\<exists>d. create_word_doc_from_template ctx tables = Some d
      \<and> rows (d ! 6) = [hd (rows (tables ! 6))]"
    using d by (simp add: create_word_doc_from_template_def)
qed

theorem data_rows_match_steps_witness:
  "(\<exists>doc. create_word_doc_from_template example_context example_template = Some doc
        \<and> length (ctx_steps example_context) = 4
        \<and> length (rows (doc ! 6)) = 5
        \<and> rows (doc ! 6) ! 0 = replicate 7 new_cell)
   \<and> (\<exists>d. create_word_doc_from_template no_steps_context example_template = Some d
        \<and> rows (d ! 6) = [replicate 7 new_cell])"
proof -
  have "\<forall>m \<in> set (sla_merges (ctx_steps example_context)). snd (snd m) \<noteq> None"
    by (simp add: example_context_def own_sla_example_ranges)
  then obtain doc where b: "build_doc example_context example_template = Inr doc"
    using build_doc_ok [OF example_template_well_formed] by blast
  then have c: "create_word_doc_from_template example_context example_template = Some doc"
    by (simp add: create_word_doc_from_template_def)
  have s: "length (ctx_steps example_context) = 4"
    by (simp add: example_context_def own_sla_example_def)
  have e: "ctx_steps no_steps_context = []"
    by (simp add: no_steps_context_def)
  have first: "length (rows (doc ! 6)) = 5 \<and> rows (doc ! 6) ! 0 = replicate 7 new_cell"
    using data_rows_match_steps [of example_context example_template doc] c s
    by (simp add: example_template_facts)
  have second: "\<exists>d. create_word_doc_from_template no_steps_context example_template = Some d
        \<and> rows (d ! 6) = [replicate 7 new_cell]"
    using data_rows_match_steps [of no_steps_context example_template] e
      example_template_well_formed
    by (simp add: example_template_facts)
  show ?thesis using c s first second by blast
qed



end
